theory Spec2Isabelle
  imports Main
begin

section \<open>The flat map of FlatMap.h\<close>

text \<open>
  \<open>idTFlatMap<Container, Key, Value, Cmp>\<close> keeps key-value pairs in an array
  container ordered by key. The embedding follows the header member by member.

  \<^item> \<open>idKeyVal\<close> is a record; the value field is called \<open>val\<close>.
  \<^item> The container is a list of entries. The flat map has no state but its
    container, so a member function takes the container and, when it mutates,
    returns the new one. A \<open>const\<close> member function returns no container.
  \<^item> The comparator object \<open>comp\<close> of type \<open>Cmp\<close> is the parameter \<open>cmp\<close> of
    every function; \<open>idLess\<close> is the default.
  \<^item> Positions are \<open>int\<close>, as in the header (\<open>pos\<close> starts at \<open>-1\<close>). The header
    computes in the C++ type \<open>int\<close>; the model computes in the integers, which
    agrees as long as \<open>Num() + 1\<close> is representable.
  \<^item> A failed \<open>assert\<close> and an index outside the container are values of type
    \<open>error\<close>; a function that can meet one returns \<open>error + 'a\<close>.
\<close>

record ('k, 'v) idKeyVal =
  key :: 'k
  val :: 'v

type_synonym ('k, 'v) container = "('k, 'v) idKeyVal list"

datatype error = AssertFailed | IndexOutOfRange

definition idLess :: "'a::ord \<Rightarrow> 'a \<Rightarrow> bool" where
  "idLess a b = (a < b)"

definition ebind :: "error + 'a \<Rightarrow> ('a \<Rightarrow> error + 'b) \<Rightarrow> error + 'b" where
  "ebind m f = (case m of Inl e \<Rightarrow> Inl e | Inr x \<Rightarrow> f x)"

definition assert :: "bool \<Rightarrow> error + unit" where
  "assert b = (if b then Inr () else Inl AssertFailed)"

subsection \<open>The array container\<close>

text \<open>
  The container type (\<open>idList\<close>, \<open>idStaticList\<close>, \<open>idFlexList\<close>) is a template
  argument whose code is not part of the header. The flat map uses its \<open>Num\<close>,
  \<open>operator[]\<close>, \<open>Insert\<close>, \<open>RemoveIndex\<close>, \<open>Clear\<close>, \<open>Reserve\<close> and \<open>Swap\<close>.
\<close>

definition Num :: "'a list \<Rightarrow> int" where
  \<comment> \<open>Modelled from the spec: the container's \<open>Num()\<close>, its current count.\<close>
  "Num c = int (length c)"

definition at :: "'a list \<Rightarrow> int \<Rightarrow> error + 'a" where
  \<comment> \<open>Modelled from the spec: the container's \<open>operator[]\<close>, indexed element
      access; an index outside \<open>[0, Num())\<close> is a fault.\<close>
  "at c i = (if 0 \<le> i \<and> i < Num c then Inr (c ! nat i) else Inl IndexOutOfRange)"

definition list_Insert :: "'a list \<Rightarrow> 'a \<Rightarrow> int \<Rightarrow> error + 'a list" where
  \<comment> \<open>Modelled from the spec: the container's \<open>Insert(obj, pos)\<close>, which shifts
      all entries at index \<open>\<ge> pos\<close> one slot to the right and stores the new
      entry at \<open>pos\<close>; \<open>0 \<le> pos \<le> N\<close> is its precondition.\<close>
  "list_Insert c obj pos =
     (if 0 \<le> pos \<and> pos \<le> Num c then Inr (take (nat pos) c @ obj # drop (nat pos) c)
      else Inl IndexOutOfRange)"

definition list_RemoveIndex :: "'a list \<Rightarrow> int \<Rightarrow> error + 'a list" where
  \<comment> \<open>Modelled from the spec: the container's \<open>RemoveIndex(pos)\<close>, unconditional
      removal by index, shifting subsequent entries left by one;
      \<open>0 \<le> pos < N\<close> is its precondition.\<close>
  "list_RemoveIndex c pos =
     (if 0 \<le> pos \<and> pos < Num c then Inr (take (nat pos) c @ drop (nat pos + 1) c)
      else Inl IndexOutOfRange)"

definition list_Clear :: "'a list \<Rightarrow> bool \<Rightarrow> 'a list" where
  \<comment> \<open>Modelled from the spec: the container's \<open>Clear(freeBuffer)\<close>, which empties
      it, releasing or retaining the backing storage.\<close>
  "list_Clear c freeBuffer = []"

definition list_Reserve :: "'a list \<Rightarrow> int \<Rightarrow> 'a list" where
  \<comment> \<open>Modelled from the spec: the container's \<open>Reserve(count)\<close>, which
      pre-allocates capacity without changing the logical contents.\<close>
  "list_Reserve c count = c"

definition list_Swap :: "'a list \<Rightarrow> 'a list \<Rightarrow> 'a list \<times> 'a list" where
  \<comment> \<open>Modelled from the spec: the container's \<open>Swap(other)\<close>, which exchanges the
      backing storage of the two containers.\<close>
  "list_Swap c other = (other, c)"

subsection \<open>FirstGE\<close>

text \<open>
  The loop of \<open>FirstGE\<close>, from the state \<open>(pos, span)\<close>. Each iteration reads the
  container once, at \<open>pos + step\<close>, and calls the comparator once on what it
  read. \<open>span >> 1\<close> is \<open>span div 2\<close>, the loop running only while \<open>span > 1\<close>.
  Beside the final \<open>pos\<close> the function returns the indices read so far, in
  order: \<open>probes\<close> is not a variable of the header; it records the reads.
\<close>

function FirstGE_loop ::
  "('k \<Rightarrow> 'k \<Rightarrow> bool) \<Rightarrow> ('k, 'v) container \<Rightarrow> 'k \<Rightarrow> int \<Rightarrow> int \<Rightarrow> int list
     \<Rightarrow> error + int \<times> int list" where
  "FirstGE_loop cmp c k pos span probes =
     (if span > 1 then
        (let step = span div 2 in
         case at c (pos + step) of
           Inl e \<Rightarrow> Inl e
         | Inr kv \<Rightarrow>
             FirstGE_loop cmp c k (if cmp (key kv) k then pos + step else pos)
               (span - step) (probes @ [pos + step]))
      else Inr (pos, probes))"
  by pat_completeness auto
termination
  by (relation "measure (\<lambda>(cmp, c, k, pos, span, probes). nat span)") auto

declare FirstGE_loop.simps [simp del]

definition FirstGE_run ::
  "('k \<Rightarrow> 'k \<Rightarrow> bool) \<Rightarrow> ('k, 'v) container \<Rightarrow> 'k \<Rightarrow> error + int \<times> int list" where
  "FirstGE_run cmp c k =
     ebind (FirstGE_loop cmp c k (- 1) (Num c + 1) [])
       (\<lambda>(pos, probes). Inr (pos + 1, probes))"

definition FirstGE :: "('k \<Rightarrow> 'k \<Rightarrow> bool) \<Rightarrow> ('k, 'v) container \<Rightarrow> 'k \<Rightarrow> error + int" where
  "FirstGE cmp c k = ebind (FirstGE_run cmp c k) (\<lambda>(pos, probes). Inr pos)"

subsection \<open>Insert and RemoveIndex\<close>

text \<open>
  The three \<open>assert\<close>s of \<open>Insert\<close> are checked in order, each operand of
  \<open>||\<close> evaluated only when the one before it is false.
\<close>

definition Insert ::
  "('k \<Rightarrow> 'k \<Rightarrow> bool) \<Rightarrow> ('k, 'v) container \<Rightarrow> 'k \<Rightarrow> 'v \<Rightarrow> int
     \<Rightarrow> error + ('k, 'v) container" where
  "Insert cmp c k v pos =
     ebind (assert (pos \<ge> 0 \<and> pos \<le> Num c)) (\<lambda>_.
     ebind (if pos = 0 then Inr True
            else ebind (at c (pos - 1)) (\<lambda>kv. Inr (cmp (key kv) k = True))) (\<lambda>a2.
     ebind (assert a2) (\<lambda>_.
     ebind (if pos = Num c then Inr True
            else ebind (at c pos) (\<lambda>kv. Inr (cmp (key kv) k = False))) (\<lambda>a3.
     ebind (assert a3) (\<lambda>_.
     list_Insert c \<lparr>key = k, val = v\<rparr> pos)))))"

definition RemoveIndex :: "('k, 'v) container \<Rightarrow> int \<Rightarrow> error + ('k, 'v) container" where
  "RemoveIndex c pos = list_RemoveIndex c pos"

subsection \<open>Lookup\<close>

text \<open>
  \<open>Find\<close>, \<open>FindIndex\<close>, \<open>Get\<close>, \<open>operator[]\<close>, \<open>Set\<close>, \<open>AddIfNew\<close> and \<open>Remove\<close>
  all test \<open>pos < container.Num() && comp(key, container[pos].key) == false\<close>
  after \<open>FirstGE\<close>; \<open>key_at\<close> is that test.
\<close>

definition key_at ::
  "('k \<Rightarrow> 'k \<Rightarrow> bool) \<Rightarrow> ('k, 'v) container \<Rightarrow> 'k \<Rightarrow> int \<Rightarrow> error + bool" where
  "key_at cmp c k pos =
     (if pos < Num c then ebind (at c pos) (\<lambda>kv. Inr (cmp k (key kv) = False))
      else Inr False)"

text \<open>
  \<open>Find\<close> returns a pointer to an entry of the container or \<open>NULL\<close>; the model
  returns the entry pointed to, or \<open>None\<close>.
\<close>

definition Find ::
  "('k \<Rightarrow> 'k \<Rightarrow> bool) \<Rightarrow> ('k, 'v) container \<Rightarrow> 'k \<Rightarrow> error + ('k, 'v) idKeyVal option" where
  "Find cmp c k =
     ebind (FirstGE cmp c k) (\<lambda>pos.
     ebind (key_at cmp c k pos) (\<lambda>hit.
       if hit then ebind (at c pos) (\<lambda>kv. Inr (Some kv))
       else Inr None))"

definition FindIndex :: "('k \<Rightarrow> 'k \<Rightarrow> bool) \<Rightarrow> ('k, 'v) container \<Rightarrow> 'k \<Rightarrow> error + int" where
  "FindIndex cmp c k =
     ebind (FirstGE cmp c k) (\<lambda>pos.
     ebind (key_at cmp c k pos) (\<lambda>hit.
       if hit then Inr pos
       else Inr (- 1)))"

definition Get :: "('k \<Rightarrow> 'k \<Rightarrow> bool) \<Rightarrow> ('k, 'v) container \<Rightarrow> 'k \<Rightarrow> 'v \<Rightarrow> error + 'v" where
  "Get cmp c k dflt =
     ebind (FirstGE cmp c k) (\<lambda>pos.
     ebind (key_at cmp c k pos) (\<lambda>hit.
       if hit then ebind (at c pos) (\<lambda>kv. Inr (val kv))
       else Inr dflt))"

subsection \<open>Mutators\<close>

text \<open>
  \<open>assign_value c pos v\<close> is the assignment \<open>container[pos].value = v\<close>.
\<close>

definition assign_value ::
  "('k, 'v) container \<Rightarrow> int \<Rightarrow> 'v \<Rightarrow> error + ('k, 'v) container" where
  "assign_value c pos v = ebind (at c pos) (\<lambda>kv. Inr (c[nat pos := kv\<lparr>val := v\<rparr>]))"

text \<open>
  \<open>operator[]\<close> returns a reference to \<open>container[pos].value\<close>: the model returns
  the container and the index \<open>pos\<close> of the entry referred to. The parameter
  \<open>dflt\<close> is the default-constructed \<open>Value()\<close>.
\<close>

definition subscript ::
  "('k \<Rightarrow> 'k \<Rightarrow> bool) \<Rightarrow> 'v \<Rightarrow> ('k, 'v) container \<Rightarrow> 'k
     \<Rightarrow> error + ('k, 'v) container \<times> int" where
  "subscript cmp dflt c k =
     ebind (FirstGE cmp c k) (\<lambda>pos.
     ebind (key_at cmp c k pos) (\<lambda>hit.
       if hit then ebind (at c pos) (\<lambda>kv. Inr (c, pos))
       else ebind (Insert cmp c k dflt pos) (\<lambda>c'.
            ebind (at c' pos) (\<lambda>kv. Inr (c', pos)))))"

text \<open>
  The output parameter \<open>int *ppos\<close> is an \<open>int option\<close>: \<open>None\<close> for \<open>nullptr\<close>,
  \<open>Some x\<close> for a pointer to an \<open>int\<close> holding \<open>x\<close>. \<open>store ppos pos\<close> is
  \<open>if (ppos) *ppos = pos\<close>. \<open>Set\<close>, \<open>AddIfNew\<close> and \<open>Remove\<close> return the new
  container, the \<open>bool\<close> they return and the \<open>int\<close> behind \<open>ppos\<close> after the call.
\<close>

definition store :: "int option \<Rightarrow> int \<Rightarrow> int option" where
  "store ppos pos = (case ppos of None \<Rightarrow> None | Some x \<Rightarrow> Some pos)"

definition Set ::
  "('k \<Rightarrow> 'k \<Rightarrow> bool) \<Rightarrow> ('k, 'v) container \<Rightarrow> 'k \<Rightarrow> 'v \<Rightarrow> int option
     \<Rightarrow> error + ('k, 'v) container \<times> bool \<times> int option" where
  "Set cmp c k v ppos =
     ebind (FirstGE cmp c k) (\<lambda>pos.
     let ppos' = store ppos pos in
     ebind (key_at cmp c k pos) (\<lambda>hit.
       if hit then ebind (assign_value c pos v) (\<lambda>c'. Inr (c', False, ppos'))
       else ebind (Insert cmp c k v pos) (\<lambda>c'. Inr (c', True, ppos'))))"

definition AddIfNew ::
  "('k \<Rightarrow> 'k \<Rightarrow> bool) \<Rightarrow> ('k, 'v) container \<Rightarrow> 'k \<Rightarrow> 'v \<Rightarrow> int option
     \<Rightarrow> error + ('k, 'v) container \<times> bool \<times> int option" where
  "AddIfNew cmp c k v ppos =
     ebind (FirstGE cmp c k) (\<lambda>pos.
     let ppos' = store ppos pos in
     ebind (key_at cmp c k pos) (\<lambda>hit.
       if hit then Inr (c, False, ppos')
       else ebind (Insert cmp c k v pos) (\<lambda>c'. Inr (c', True, ppos'))))"

definition Remove ::
  "('k \<Rightarrow> 'k \<Rightarrow> bool) \<Rightarrow> ('k, 'v) container \<Rightarrow> 'k \<Rightarrow> int option
     \<Rightarrow> error + ('k, 'v) container \<times> bool \<times> int option" where
  "Remove cmp c k ppos =
     ebind (FirstGE cmp c k) (\<lambda>pos.
     let ppos' = store ppos pos in
     ebind (key_at cmp c k pos) (\<lambda>hit.
       if hit then ebind (RemoveIndex c pos) (\<lambda>c'. Inr (c', True, ppos'))
       else Inr (c, False, ppos')))"

subsection \<open>Clear, Reserve, Swap\<close>

definition Clear :: "('k, 'v) container \<Rightarrow> bool \<Rightarrow> ('k, 'v) container" where
  "Clear c freeBuffer = list_Clear c freeBuffer"

definition Reserve :: "('k, 'v) container \<Rightarrow> int \<Rightarrow> ('k, 'v) container" where
  "Reserve c count = list_Reserve c count"

definition Swap ::
  "('k, 'v) container \<Rightarrow> ('k, 'v) container \<Rightarrow> ('k, 'v) container \<times> ('k, 'v) container" where
  "Swap c other = list_Swap c other"

section \<open>The comparator and the order invariant\<close>

text \<open>
  The comparator is a strict weak ordering: irreflexive, transitive, and with a
  transitive equivalence "neither is less than the other".
\<close>

definition equiv_keys :: "('k \<Rightarrow> 'k \<Rightarrow> bool) \<Rightarrow> 'k \<Rightarrow> 'k \<Rightarrow> bool" where
  "equiv_keys cmp a b = (\<not> cmp a b \<and> \<not> cmp b a)"

definition strict_weak_order :: "('k \<Rightarrow> 'k \<Rightarrow> bool) \<Rightarrow> bool" where
  "strict_weak_order cmp =
     ((\<forall>a. \<not> cmp a a) \<and>
      (\<forall>a b c. cmp a b \<longrightarrow> cmp b c \<longrightarrow> cmp a c) \<and>
      (\<forall>a b c. equiv_keys cmp a b \<longrightarrow> equiv_keys cmp b c \<longrightarrow> equiv_keys cmp a c))"

text \<open>
  Invariant I1: the entries are strictly ascending by key; by
  \<open>sorted_wrt_iff_nth_less\<close> this is \<open>cmp (key (c ! i)) (key (c ! j))\<close> for all
  \<open>i < j < length c\<close>.
\<close>

definition ascending :: "('k \<Rightarrow> 'k \<Rightarrow> bool) \<Rightarrow> ('k, 'v) container \<Rightarrow> bool" where
  "ascending cmp c = sorted_wrt cmp (map key c)"

text \<open>The number of entries whose key is strictly less than \<open>k\<close>.\<close>

definition count_less :: "('k \<Rightarrow> 'k \<Rightarrow> bool) \<Rightarrow> ('k, 'v) container \<Rightarrow> 'k \<Rightarrow> nat" where
  "count_less cmp c k = length (filter (\<lambda>kv. cmp (key kv) k) c)"

text \<open>Some entry has a key comparing equal to \<open>k\<close>.\<close>

definition has_key :: "('k \<Rightarrow> 'k \<Rightarrow> bool) \<Rightarrow> ('k, 'v) container \<Rightarrow> 'k \<Rightarrow> bool" where
  "has_key cmp c k = (\<exists>e \<in> set c. equiv_keys cmp (key e) k)"

section \<open>Reachable containers\<close>

text \<open>
  The precondition of \<open>Insert(key, value, pos)\<close>: \<open>0 \<le> pos \<le> N\<close>; the entry
  immediately before \<open>pos\<close>, if any, has a key strictly less than \<open>key\<close>; the
  entry at \<open>pos\<close>, if any, has a key not less than \<open>key\<close>, that is, strictly
  greater, equal keys being disallowed. The first two parts and "not less" are
  what the three \<open>assert\<close>s of \<open>Insert\<close> test; "strictly greater" is left to the
  caller, \<open>Insert\<close> making no check for a duplicate.
\<close>

definition Insert_pre ::
  "('k \<Rightarrow> 'k \<Rightarrow> bool) \<Rightarrow> ('k, 'v) container \<Rightarrow> 'k \<Rightarrow> int \<Rightarrow> bool" where
  "Insert_pre cmp c k pos =
     (0 \<le> pos \<and> pos \<le> Num c \<and>
      (pos = 0 \<or> cmp (key (c ! nat (pos - 1))) k) \<and>
      (pos = Num c \<or> (cmp (key (c ! nat pos)) k = False \<and> cmp k (key (c ! nat pos)))))"

text \<open>
  \<open>reachable cmp dflt c\<close>: the container \<open>c\<close> is reached from the empty one by
  calls of the mutating member functions, \<open>Insert\<close> being called at a position
  that satisfies its precondition. A call that ends in a failed \<open>assert\<close> or in
  a container fault leaves no container to go on from. The reference
  \<open>operator[]\<close> returns may be assigned through. \<open>Swap\<close> exchanges the containers
  of two flat maps, both reached the same way.
\<close>

inductive reachable ::
  "('k \<Rightarrow> 'k \<Rightarrow> bool) \<Rightarrow> 'v \<Rightarrow> ('k, 'v) container \<Rightarrow> bool"
  for cmp :: "'k \<Rightarrow> 'k \<Rightarrow> bool" and dflt :: 'v where
  by_empty: "reachable cmp dflt []"
| by_Set:
    "reachable cmp dflt c \<Longrightarrow> Set cmp c k v ppos = Inr (c', added, ppos') \<Longrightarrow>
     reachable cmp dflt c'"
| by_AddIfNew:
    "reachable cmp dflt c \<Longrightarrow> AddIfNew cmp c k v ppos = Inr (c', added, ppos') \<Longrightarrow>
     reachable cmp dflt c'"
| by_subscript:
    "reachable cmp dflt c \<Longrightarrow> subscript cmp dflt c k = Inr (c', pos) \<Longrightarrow>
     reachable cmp dflt c'"
| by_subscript_assign:
    "reachable cmp dflt c \<Longrightarrow> subscript cmp dflt c k = Inr (c', pos) \<Longrightarrow>
     assign_value c' pos v = Inr c'' \<Longrightarrow> reachable cmp dflt c''"
| by_Insert:
    "reachable cmp dflt c \<Longrightarrow> Insert_pre cmp c k pos \<Longrightarrow>
     Insert cmp c k v pos = Inr c' \<Longrightarrow> reachable cmp dflt c'"
| by_Remove:
    "reachable cmp dflt c \<Longrightarrow> Remove cmp c k ppos = Inr (c', removed, ppos') \<Longrightarrow>
     reachable cmp dflt c'"
| by_RemoveIndex:
    "reachable cmp dflt c \<Longrightarrow> RemoveIndex c pos = Inr c' \<Longrightarrow>
     reachable cmp dflt c'"
| by_Clear:
    "reachable cmp dflt c \<Longrightarrow> reachable cmp dflt (Clear c freeBuffer)"
| by_Reserve:
    "reachable cmp dflt c \<Longrightarrow> reachable cmp dflt (Reserve c count)"
| by_Swap:
    "reachable cmp dflt c \<Longrightarrow> reachable cmp dflt other \<Longrightarrow>
     Swap c other = (c', other') \<Longrightarrow> reachable cmp dflt c'"
| by_Swap_other:
    "reachable cmp dflt c \<Longrightarrow> reachable cmp dflt other \<Longrightarrow>
     Swap c other = (c', other') \<Longrightarrow> reachable cmp dflt other'"

section \<open>Histories of calls\<close>

text \<open>
  A history is a list of calls that address an entry by its key: \<open>Set\<close>,
  \<open>AddIfNew\<close>, \<open>operator[]\<close> alone (\<open>CallSubscript\<close>) or followed by an assignment
  through the reference it returns (\<open>CallAssign\<close>, \<open>map[k] = v\<close>), \<open>Remove\<close>,
  \<open>Clear\<close> and \<open>Reserve\<close>. The calls pass \<open>nullptr\<close> for \<open>ppos\<close>. \<open>run\<close> makes the
  calls in order, the first fault ending the run.
\<close>

datatype ('k, 'v) call =
    CallSet 'k 'v
  | CallAddIfNew 'k 'v
  | CallSubscript 'k
  | CallAssign 'k 'v
  | CallRemove 'k
  | CallClear bool
  | CallReserve int

fun apply_call ::
  "('k \<Rightarrow> 'k \<Rightarrow> bool) \<Rightarrow> 'v \<Rightarrow> ('k, 'v) container \<Rightarrow> ('k, 'v) call
     \<Rightarrow> error + ('k, 'v) container" where
  "apply_call cmp dflt c (CallSet k v) =
     ebind (Set cmp c k v None) (\<lambda>(c', added, ppos'). Inr c')"
| "apply_call cmp dflt c (CallAddIfNew k v) =
     ebind (AddIfNew cmp c k v None) (\<lambda>(c', added, ppos'). Inr c')"
| "apply_call cmp dflt c (CallSubscript k) =
     ebind (subscript cmp dflt c k) (\<lambda>(c', pos). Inr c')"
| "apply_call cmp dflt c (CallAssign k v) =
     ebind (subscript cmp dflt c k) (\<lambda>(c', pos). assign_value c' pos v)"
| "apply_call cmp dflt c (CallRemove k) =
     ebind (Remove cmp c k None) (\<lambda>(c', removed, ppos'). Inr c')"
| "apply_call cmp dflt c (CallClear freeBuffer) = Inr (Clear c freeBuffer)"
| "apply_call cmp dflt c (CallReserve count) = Inr (Reserve c count)"

fun run ::
  "('k \<Rightarrow> 'k \<Rightarrow> bool) \<Rightarrow> 'v \<Rightarrow> ('k, 'v) container \<Rightarrow> ('k, 'v) call list
     \<Rightarrow> error + ('k, 'v) container" where
  "run cmp dflt c [] = Inr c"
| "run cmp dflt c (x # xs) = ebind (apply_call cmp dflt c x) (\<lambda>c'. run cmp dflt c' xs)"

text \<open>
  The value a container holds for \<open>K\<close>: the value of its first entry whose key
  compares equal to \<open>K\<close>.
\<close>

definition stored :: "('k \<Rightarrow> 'k \<Rightarrow> bool) \<Rightarrow> ('k, 'v) container \<Rightarrow> 'k \<Rightarrow> 'v option" where
  "stored cmp c K = map_option val (find (\<lambda>e. equiv_keys cmp (key e) K) c)"

text \<open>
  The specification of what a lookup returns after a history: "the value most
  recently \<open>Set\<close> for \<open>K\<close>, or the value it was inserted with, if never
  overwritten". \<open>spec_call\<close> is the effect of one call on the values expected for
  every key, and \<open>spec_last_value\<close> replays a history from the values held at
  its start. Neither looks at a container.
\<close>

fun spec_call ::
  "('k \<Rightarrow> 'k \<Rightarrow> bool) \<Rightarrow> 'v \<Rightarrow> ('k, 'v) call \<Rightarrow> ('k \<Rightarrow> 'v option) \<Rightarrow> 'k \<Rightarrow> 'v option" where
  "spec_call cmp dflt (CallSet k v) m K = (if equiv_keys cmp k K then Some v else m K)"
| "spec_call cmp dflt (CallAddIfNew k v) m K =
     (if equiv_keys cmp k K then (case m K of None \<Rightarrow> Some v | Some w \<Rightarrow> Some w) else m K)"
| "spec_call cmp dflt (CallSubscript k) m K =
     (if equiv_keys cmp k K then (case m K of None \<Rightarrow> Some dflt | Some w \<Rightarrow> Some w) else m K)"
| "spec_call cmp dflt (CallAssign k v) m K = (if equiv_keys cmp k K then Some v else m K)"
| "spec_call cmp dflt (CallRemove k) m K = (if equiv_keys cmp k K then None else m K)"
| "spec_call cmp dflt (CallClear freeBuffer) m K = None"
| "spec_call cmp dflt (CallReserve count) m K = m K"

fun spec_last_value ::
  "('k \<Rightarrow> 'k \<Rightarrow> bool) \<Rightarrow> 'v \<Rightarrow> ('k \<Rightarrow> 'v option) \<Rightarrow> ('k, 'v) call list \<Rightarrow> 'k \<Rightarrow> 'v option" where
  "spec_last_value cmp dflt m [] = m"
| "spec_last_value cmp dflt m (x # xs) = spec_last_value cmp dflt (spec_call cmp dflt x m) xs"

section \<open>Lemmas\<close>

subsection \<open>The error monad and the container\<close>

lemma at_Inr_iff: "at c i = Inr x \<longleftrightarrow> 0 \<le> i \<and> i < int (length c) \<and> x = c ! nat i"
  by (auto simp: at_def Num_def)

lemma at_in_range: "0 \<le> i \<Longrightarrow> i < int (length c) \<Longrightarrow> at c i = Inr (c ! nat i)"
  by (simp add: at_def Num_def)

lemma ebind_Inr [simp]: "ebind (Inr x) f = f x"
  by (simp add: ebind_def)

lemma ebind_Inl [simp]: "ebind (Inl e) f = Inl e"
  by (simp add: ebind_def)

lemma FirstGE_loop_safe:
  "- 1 \<le> pos \<Longrightarrow> pos + span \<le> Num c \<Longrightarrow>
   \<exists>r ps. FirstGE_loop cmp c k pos span probes = Inr (r, probes @ ps) \<and>
          (\<forall>i \<in> set ps. 0 \<le> i \<and> i < Num c) \<and>
          int (length ps) \<le> max 0 (span - 1) \<and> pos \<le> r \<and> r < pos + max 1 span"
proof (induction cmp c k pos span probes rule: FirstGE_loop.induct)
  case (1 cmp c k pos span probes)
  show ?case
  proof (cases "span > 1")
    case False
    then show ?thesis
      by (simp add: FirstGE_loop.simps [of cmp c k pos span probes])
  next
    case True
    define step where "step = span div 2"
    have step: "1 \<le> step" "step < span" "step \<le> span - step"
      using True by (simp_all add: step_def)
    have rd: "at c (pos + step) = Inr (c ! nat (pos + step))"
      using step "1.prems" by (intro at_in_range) (simp_all add: Num_def)
    define pos' where "pos' = (if cmp (key (c ! nat (pos + step))) k then pos + step else pos)"
    have "\<exists>r ps. FirstGE_loop cmp c k pos' (span - step) (probes @ [pos + step])
              = Inr (r, (probes @ [pos + step]) @ ps) \<and>
            (\<forall>i \<in> set ps. 0 \<le> i \<and> i < Num c) \<and>
            int (length ps) \<le> max 0 (span - step - 1) \<and> pos' \<le> r \<and> r < pos' + max 1 (span - step)"
      unfolding pos'_def
      by (rule "1.IH" [OF True step_def rd]) (use step "1.prems" in \<open>simp_all\<close>)
    then obtain r ps where
      run: "FirstGE_loop cmp c k pos' (span - step) (probes @ [pos + step])
              = Inr (r, (probes @ [pos + step]) @ ps)"
      and ps: "\<forall>i \<in> set ps. 0 \<le> i \<and> i < Num c"
      and len: "int (length ps) \<le> max 0 (span - step - 1)"
      and r: "pos' \<le> r" "r < pos' + max 1 (span - step)"
      by blast
    have "FirstGE_loop cmp c k pos span probes = Inr (r, probes @ ((pos + step) # ps))"
      using True run rd
      by (simp add: FirstGE_loop.simps [of cmp c k pos span probes] step_def [symmetric] pos'_def)
    moreover have "\<forall>i \<in> set ((pos + step) # ps). 0 \<le> i \<and> i < Num c"
      using ps step "1.prems" by simp
    moreover have "int (length ((pos + step) # ps)) \<le> max 0 (span - 1)"
      using len step by simp
    moreover have "pos \<le> r" "r < pos + max 1 span"
      using r step by (simp_all add: pos'_def split: if_splits)
    ultimately show ?thesis by blast
  qed
qed

lemma FirstGE_loop_correct:
  assumes "\<forall>i < length c. cmp (key (c ! i)) k \<longleftrightarrow> i < m"
    and "m \<le> length c"
  shows "- 1 \<le> pos \<Longrightarrow> 1 \<le> span \<Longrightarrow> pos + span \<le> Num c \<Longrightarrow> pos < int m \<Longrightarrow> int m \<le> pos + span \<Longrightarrow>
   \<exists>ps. FirstGE_loop cmp c k pos span probes = Inr (int m - 1, ps)"
  using assms
proof (induction cmp c k pos span probes rule: FirstGE_loop.induct)
  case (1 cmp c k pos span probes)
  show ?case
  proof (cases "span > 1")
    case False
    with "1.prems" have "pos = int m - 1" by simp
    with False show ?thesis
      by (subst FirstGE_loop.simps) simp
  next
    case True
    define step where "step = span div 2"
    have step: "1 \<le> step" "step < span" "step \<le> span - step"
      using True by (simp_all add: step_def)
    have rng: "0 \<le> pos + step" "nat (pos + step) < length c"
      using step "1.prems" by (simp_all add: Num_def)
    have rd: "at c (pos + step) = Inr (c ! nat (pos + step))"
      using rng by (intro at_in_range) simp_all
    define pos' where "pos' = (if cmp (key (c ! nat (pos + step))) k then pos + step else pos)"
    have probe: "cmp (key (c ! nat (pos + step))) k \<longleftrightarrow> pos + step < int m"
      using "1.prems"(6) rng by auto
    have "\<exists>ps. FirstGE_loop cmp c k pos' (span - step) (probes @ [pos + step]) = Inr (int m - 1, ps)"
      unfolding pos'_def
      by (rule "1.IH" [OF True step_def rd]) (use step "1.prems" probe in \<open>simp_all\<close>)
    then show ?thesis
      using True rd
      by (simp add: FirstGE_loop.simps [of cmp c k pos span probes] step_def [symmetric] pos'_def)
  qed
qed

lemma count_less_le: "count_less cmp c k \<le> length c"
  by (simp add: count_less_def)

lemma less_prefix:
  assumes tr: "\<And>a b d. cmp a b \<Longrightarrow> cmp b d \<Longrightarrow> cmp a d"
  shows "ascending cmp c \<Longrightarrow> i < length c \<Longrightarrow> cmp (key (c ! i)) k \<longleftrightarrow> i < count_less cmp c k"
proof (induction c arbitrary: i)
  case Nil
  then show ?case by simp
next
  case (Cons x xs)
  have asc: "ascending cmp xs" and lt: "\<forall>y \<in> set xs. cmp (key x) (key y)"
    using Cons.prems(1) by (simp_all add: ascending_def)
  show ?case
  proof (cases "cmp (key x) k")
    case True
    then show ?thesis
      using Cons.IH [OF asc] Cons.prems(2)
      by (cases i) (simp_all add: count_less_def)
  next
    case False
    have none: "\<forall>y \<in> set xs. \<not> cmp (key y) k"
      using lt False tr by blast
    then have "count_less cmp (x # xs) k = 0"
      using False by (simp add: count_less_def)
    moreover have "\<not> cmp (key ((x # xs) ! i)) k"
      using False none Cons.prems(2) by (cases i) simp_all
    ultimately show ?thesis by simp
  qed
qed


lemma swo_irrefl: "strict_weak_order cmp \<Longrightarrow> \<not> cmp a a"
  by (simp add: strict_weak_order_def)

lemma swo_trans: "strict_weak_order cmp \<Longrightarrow> cmp a b \<Longrightarrow> cmp b d \<Longrightarrow> cmp a d"
  unfolding strict_weak_order_def by blast

lemma swo_equiv_trans:
  "strict_weak_order cmp \<Longrightarrow> equiv_keys cmp a b \<Longrightarrow> equiv_keys cmp b d \<Longrightarrow> equiv_keys cmp a d"
  unfolding strict_weak_order_def by blast

lemma equiv_keys_sym: "equiv_keys cmp a b \<Longrightarrow> equiv_keys cmp b a"
  by (simp add: equiv_keys_def)

lemma swo_less_equiv:
  assumes "strict_weak_order cmp" "cmp a b" "equiv_keys cmp b d"
  shows "cmp a d"
proof (rule ccontr)
  assume n: "\<not> cmp a d"
  show False
  proof (cases "cmp d a")
    case True
    then have "cmp d b" using assms(1,2) swo_trans by metis
    then show False using assms(3) by (simp add: equiv_keys_def)
  next
    case False
    then have "equiv_keys cmp a d" using n by (simp add: equiv_keys_def)
    then have "equiv_keys cmp a b"
      using assms(1,3) swo_equiv_trans equiv_keys_sym by metis
    then show False using assms(2) by (simp add: equiv_keys_def)
  qed
qed

lemma swo_equiv_less:
  assumes "strict_weak_order cmp" "equiv_keys cmp a b" "cmp b d"
  shows "cmp a d"
proof (rule ccontr)
  assume n: "\<not> cmp a d"
  show False
  proof (cases "cmp d a")
    case True
    then have "cmp b a" using assms(1,3) swo_trans by metis
    then show False using assms(2) by (simp add: equiv_keys_def)
  next
    case False
    then have "equiv_keys cmp d a" using n by (simp add: equiv_keys_def)
    then have "equiv_keys cmp d b"
      using assms(1,2) swo_equiv_trans by metis
    then show False using assms(3) by (simp add: equiv_keys_def)
  qed
qed

lemma less_prefix_swo:
  "strict_weak_order cmp \<Longrightarrow> ascending cmp c \<Longrightarrow> i < length c \<Longrightarrow>
   cmp (key (c ! i)) k \<longleftrightarrow> i < count_less cmp c k"
  by (rule less_prefix) (auto intro: swo_trans)

lemma ascending_nth:
  "ascending cmp c \<Longrightarrow> i < j \<Longrightarrow> j < length c \<Longrightarrow> cmp (key (c ! i)) (key (c ! j))"
  by (simp add: ascending_def sorted_wrt_iff_nth_less)

lemma FirstGE_run_ascending:
  assumes "strict_weak_order cmp" "ascending cmp c"
  shows "\<exists>ps. FirstGE_run cmp c k = Inr (int (count_less cmp c k), ps)"
proof -
  let ?m = "count_less cmp c k"
  have "\<exists>ps. FirstGE_loop cmp c k (- 1) (Num c + 1) [] = Inr (int ?m - 1, ps)"
    by (rule FirstGE_loop_correct [where m = ?m])
       (use less_prefix_swo [OF assms] count_less_le [of cmp c k] in \<open>auto simp: Num_def\<close>)
  then show ?thesis by (auto simp: FirstGE_run_def)
qed

lemma FirstGE_ascending:
  assumes "strict_weak_order cmp" "ascending cmp c"
  shows "FirstGE cmp c k = Inr (int (count_less cmp c k))"
  using FirstGE_run_ascending [OF assms, of k] by (auto simp: FirstGE_def)

lemma has_key_position:
  assumes swo: "strict_weak_order cmp" and asc: "ascending cmp c" and has: "has_key cmp c k"
  shows "count_less cmp c k < length c \<and> equiv_keys cmp (key (c ! count_less cmp c k)) k"
proof -
  let ?m = "count_less cmp c k"
  from has obtain i where i: "i < length c" and eq: "equiv_keys cmp (key (c ! i)) k"
    by (auto simp: has_key_def in_set_conv_nth)
  have "\<not> cmp (key (c ! i)) k" using eq by (simp add: equiv_keys_def)
  then have le: "?m \<le> i" using less_prefix_swo [OF swo asc i, of k] by simp
  have "\<not> ?m < i"
  proof
    assume lt: "?m < i"
    have "cmp (key (c ! ?m)) (key (c ! i))" using asc lt i by (rule ascending_nth)
    then have "cmp (key (c ! ?m)) k" using swo eq swo_less_equiv by metis
    moreover have "?m < length c" using lt i by simp
    ultimately show False using less_prefix_swo [OF swo asc, of ?m k] by simp
  qed
  with le have "?m = i" by simp
  with i eq show ?thesis by simp
qed

lemma no_key_position:
  assumes swo: "strict_weak_order cmp" and asc: "ascending cmp c" and no: "\<not> has_key cmp c k"
    and lt: "count_less cmp c k < length c"
  shows "cmp k (key (c ! count_less cmp c k))"
proof -
  let ?m = "count_less cmp c k"
  have "\<not> cmp (key (c ! ?m)) k" using less_prefix_swo [OF swo asc lt, of k] by simp
  moreover have "\<not> equiv_keys cmp (key (c ! ?m)) k"
    using no lt by (auto simp: has_key_def)
  ultimately show ?thesis by (simp add: equiv_keys_def)
qed

lemma key_at_ascending:
  assumes "strict_weak_order cmp" "ascending cmp c"
  shows "key_at cmp c k (int (count_less cmp c k)) = Inr (has_key cmp c k)"
proof (cases "has_key cmp c k")
  case True
  from has_key_position [OF assms True] show ?thesis
    using True by (simp add: key_at_def Num_def at_in_range equiv_keys_def)
next
  case False
  show ?thesis
  proof (cases "count_less cmp c k < length c")
    case True
    from no_key_position [OF assms False True] swo_irrefl [OF assms(1)] swo_trans [OF assms(1)]
    have "cmp k (key (c ! count_less cmp c k))" by simp
    then show ?thesis using True False by (simp add: key_at_def Num_def at_in_range)
  next
    case False
    then show ?thesis using \<open>\<not> has_key cmp c k\<close> by (simp add: key_at_def Num_def)
  qed
qed

lemma Insert_ascending:
  assumes swo: "strict_weak_order cmp" and asc: "ascending cmp c"
  shows "Insert cmp c k v (int (count_less cmp c k)) =
         Inr (take (count_less cmp c k) c @ \<lparr>key = k, val = v\<rparr> # drop (count_less cmp c k) c)"
proof -
  let ?m = "count_less cmp c k"
  have le: "?m \<le> length c" by (rule count_less_le)
  have a2: "?m \<noteq> 0 \<Longrightarrow> at c (int ?m - 1) = Inr (c ! (?m - 1)) \<and> cmp (key (c ! (?m - 1))) k"
  proof -
    assume "?m \<noteq> 0"
    then have "?m - 1 < length c" "?m - 1 < ?m" using le by simp_all
    then have "cmp (key (c ! (?m - 1))) k" using less_prefix_swo [OF swo asc, of "?m - 1" k] by simp
    moreover have "at c (int ?m - 1) = Inr (c ! nat (int ?m - 1))"
      using \<open>?m \<noteq> 0\<close> le by (intro at_in_range) simp_all
    moreover have "nat (int ?m - 1) = ?m - 1" by simp
    ultimately show ?thesis by simp
  qed
  have a3: "?m \<noteq> length c \<Longrightarrow> at c (int ?m) = Inr (c ! ?m) \<and> \<not> cmp (key (c ! ?m)) k"
  proof -
    assume "?m \<noteq> length c"
    then have lt: "?m < length c" using le by simp
    then have "\<not> cmp (key (c ! ?m)) k" using less_prefix_swo [OF swo asc lt, of k] by simp
    then show ?thesis using lt by (simp add: at_in_range)
  qed
  have e2: "(if int ?m = 0 then Inr True
             else ebind (at c (int ?m - 1)) (\<lambda>kv. Inr (cmp (key kv) k = True))) = Inr True"
    using a2 by (cases "?m = 0") simp_all
  have e3: "(if int ?m = Num c then Inr True
             else ebind (at c (int ?m)) (\<lambda>kv. Inr (cmp (key kv) k = False))) = Inr True"
    using a3 by (cases "?m = length c") (simp_all add: Num_def)
  show ?thesis
    unfolding Insert_def e2 e3 using le by (simp add: assert_def list_Insert_def Num_def)
qed

subsection \<open>The operations on an ascending container\<close>

lemma Find_ascending:
  assumes "strict_weak_order cmp" "ascending cmp c"
  shows "Find cmp c k =
         Inr (if has_key cmp c k then Some (c ! count_less cmp c k) else None)"
  using has_key_position [OF assms, of k]
  by (simp add: Find_def FirstGE_ascending [OF assms] key_at_ascending [OF assms] at_in_range)

lemma FindIndex_ascending:
  assumes "strict_weak_order cmp" "ascending cmp c"
  shows "FindIndex cmp c k = Inr (if has_key cmp c k then int (count_less cmp c k) else - 1)"
  by (simp add: FindIndex_def FirstGE_ascending [OF assms] key_at_ascending [OF assms])

lemma Get_ascending:
  assumes "strict_weak_order cmp" "ascending cmp c"
  shows "Get cmp c k dflt =
         Inr (if has_key cmp c k then val (c ! count_less cmp c k) else dflt)"
  using has_key_position [OF assms, of k]
  by (simp add: Get_def FirstGE_ascending [OF assms] key_at_ascending [OF assms] at_in_range)

lemma Set_ascending:
  assumes "strict_weak_order cmp" "ascending cmp c"
  shows "Set cmp c k v ppos =
         Inr (if has_key cmp c k
              then (c[count_less cmp c k := (c ! count_less cmp c k)\<lparr>val := v\<rparr>], False,
                    store ppos (int (count_less cmp c k)))
              else (take (count_less cmp c k) c @ \<lparr>key = k, val = v\<rparr> # drop (count_less cmp c k) c,
                    True, store ppos (int (count_less cmp c k))))"
  using has_key_position [OF assms, of k]
  by (simp add: Set_def FirstGE_ascending [OF assms] key_at_ascending [OF assms]
      Insert_ascending [OF assms] assign_value_def at_in_range)

lemma AddIfNew_ascending:
  assumes "strict_weak_order cmp" "ascending cmp c"
  shows "AddIfNew cmp c k v ppos =
         Inr (if has_key cmp c k
              then (c, False, store ppos (int (count_less cmp c k)))
              else (take (count_less cmp c k) c @ \<lparr>key = k, val = v\<rparr> # drop (count_less cmp c k) c,
                    True, store ppos (int (count_less cmp c k))))"
  by (simp add: AddIfNew_def FirstGE_ascending [OF assms] key_at_ascending [OF assms]
      Insert_ascending [OF assms])

lemma Remove_ascending:
  assumes "strict_weak_order cmp" "ascending cmp c"
  shows "Remove cmp c k ppos =
         Inr (if has_key cmp c k
              then (take (count_less cmp c k) c @ drop (Suc (count_less cmp c k)) c, True,
                    store ppos (int (count_less cmp c k)))
              else (c, False, store ppos (int (count_less cmp c k))))"
  using has_key_position [OF assms, of k]
  by (simp add: Remove_def FirstGE_ascending [OF assms] key_at_ascending [OF assms]
      RemoveIndex_def list_RemoveIndex_def Num_def)

lemma subscript_ascending:
  assumes "strict_weak_order cmp" "ascending cmp c"
  shows "subscript cmp dflt c k =
         Inr (if has_key cmp c k then c
              else take (count_less cmp c k) c @ \<lparr>key = k, val = dflt\<rparr> # drop (count_less cmp c k) c,
              int (count_less cmp c k))"
  using has_key_position [OF assms, of k] count_less_le [of cmp c k]
  by (simp add: subscript_def FirstGE_ascending [OF assms] key_at_ascending [OF assms]
      Insert_ascending [OF assms] at_in_range)

subsection \<open>Preservation of the order\<close>

lemma ascending_assign:
  "ascending cmp c \<Longrightarrow> i < length c \<Longrightarrow> ascending cmp (c[i := (c ! i)\<lparr>val := v\<rparr>])"
proof -
  assume asc: "ascending cmp c" and i: "i < length c"
  have "(map key c)[i := key (c ! i)] = map key c"
    using i by (simp add: list_update_same_conv)
  then show ?thesis using asc by (simp add: ascending_def map_update)
qed

lemma ascending_remove:
  "ascending cmp c \<Longrightarrow> ascending cmp (take i c @ drop (Suc i) c)"
proof -
  assume asc: "ascending cmp c"
  have "sorted_wrt cmp (take i (map key c) @ drop i (map key c))"
    using asc by (simp add: ascending_def)
  then have parts: "sorted_wrt cmp (take i (map key c))"
      "\<forall>x \<in> set (take i (map key c)). \<forall>y \<in> set (drop i (map key c)). cmp x y"
    unfolding sorted_wrt_append by blast+
  have "sorted_wrt cmp (drop (Suc i) (map key c))"
    using asc by (simp add: ascending_def sorted_wrt_drop)
  moreover have "set (drop (Suc i) (map key c)) \<subseteq> set (drop i (map key c))"
    by (rule set_drop_subset_set_drop) simp
  ultimately have "sorted_wrt cmp (take i (map key c) @ drop (Suc i) (map key c))"
    using parts by (auto simp: sorted_wrt_append)
  then show ?thesis by (simp add: ascending_def take_map drop_map)
qed

lemma in_set_dropE:
  assumes "e \<in> set (drop n c)"
  obtains j where "n \<le> j" "j < length c" "e = c ! j"
proof -
  from assms obtain i where "i < length c - n" "e = drop n c ! i"
    by (auto simp: in_set_conv_nth)
  then have "n \<le> n + i" "n + i < length c" "e = c ! (n + i)" by simp_all
  then show ?thesis by (rule that)
qed

lemma ascending_insert_between:
  assumes swo: "strict_weak_order cmp" and asc: "ascending cmp c" and le: "m \<le> length c"
    and before: "m \<noteq> 0 \<Longrightarrow> cmp (key (c ! (m - 1))) k"
    and after: "m \<noteq> length c \<Longrightarrow> cmp k (key (c ! m))"
  shows "ascending cmp (take m c @ \<lparr>key = k, val = v\<rparr> # drop m c)"
proof -
  have split: "sorted_wrt cmp (map key (take m c)) \<and> sorted_wrt cmp (map key (drop m c)) \<and>
      (\<forall>x \<in> set (take m c). \<forall>y \<in> set (drop m c). cmp (key x) (key y))"
    using asc sorted_wrt_append [of cmp "map key (take m c)" "map key (drop m c)"]
    by (simp add: ascending_def flip: map_append)
  have lo: "cmp (key x) k" if "x \<in> set (take m c)" for x
  proof -
    from that obtain i where i: "i < m" "i < length c" "x = c ! i"
      by (auto simp: in_set_conv_nth)
    then have m0: "m \<noteq> 0" by simp
    show ?thesis
    proof (cases "i = m - 1")
      case True
      then show ?thesis using before [OF m0] i by simp
    next
      case False
      then have "cmp (key (c ! i)) (key (c ! (m - 1)))"
        using i le by (intro ascending_nth [OF asc]) simp_all
      then show ?thesis using before [OF m0] swo i swo_trans by metis
    qed
  qed
  have hi: "cmp k (key y)" if "y \<in> set (drop m c)" for y
  proof -
    from that obtain j where j: "m \<le> j" "j < length c" "y = c ! j"
      by (rule in_set_dropE)
    then have mn: "m \<noteq> length c" by simp
    show ?thesis
    proof (cases "j = m")
      case True
      then show ?thesis using after [OF mn] j by simp
    next
      case False
      then have "cmp (key (c ! m)) (key (c ! j))"
        using j by (intro ascending_nth [OF asc]) simp_all
      then show ?thesis using after [OF mn] swo j swo_trans by metis
    qed
  qed
  show ?thesis
    using split lo hi by (simp add: ascending_def sorted_wrt_append)
qed

lemma ascending_insert:
  assumes swo: "strict_weak_order cmp" and asc: "ascending cmp c" and no: "\<not> has_key cmp c k"
  shows "ascending cmp (take (count_less cmp c k) c @ \<lparr>key = k, val = v\<rparr> # drop (count_less cmp c k) c)"
proof (rule ascending_insert_between [OF swo asc count_less_le])
  assume "count_less cmp c k \<noteq> 0"
  then have "count_less cmp c k - 1 < count_less cmp c k" by simp
  moreover have "count_less cmp c k - 1 < length c"
    using count_less_le [of cmp c k] \<open>count_less cmp c k \<noteq> 0\<close> by simp
  ultimately show "cmp (key (c ! (count_less cmp c k - 1))) k"
    using less_prefix_swo [OF swo asc, of "count_less cmp c k - 1" k] by simp
next
  assume "count_less cmp c k \<noteq> length c"
  then have "count_less cmp c k < length c" using count_less_le [of cmp c k] by simp
  then show "cmp k (key (c ! count_less cmp c k))"
    by (rule no_key_position [OF swo asc no])
qed

subsection \<open>Where an equal key can be\<close>

lemma count_less_at:
  assumes swo: "strict_weak_order cmp" and asc: "ascending cmp c"
    and i: "i < length c" and eq: "equiv_keys cmp (key (c ! i)) k"
  shows "has_key cmp c k \<and> count_less cmp c k = i"
proof -
  have has: "has_key cmp c k" using i eq by (auto simp: has_key_def)
  let ?m = "count_less cmp c k"
  from has_key_position [OF swo asc has]
  have m: "?m < length c" and eqm: "equiv_keys cmp (key (c ! ?m)) k" by simp_all
  have both: "equiv_keys cmp (key (c ! ?m)) (key (c ! i))"
    using swo eqm eq swo_equiv_trans equiv_keys_sym by metis
  have "\<not> ?m < i"
    using ascending_nth [OF asc _ i, of ?m] both by (auto simp: equiv_keys_def)
  moreover have "\<not> i < ?m"
    using ascending_nth [OF asc _ m, of i] both by (auto simp: equiv_keys_def)
  ultimately show ?thesis using has by simp
qed

lemma before_less:
  assumes "strict_weak_order cmp" "ascending cmp c" "e \<in> set (take (count_less cmp c k) c)"
  shows "cmp (key e) k"
proof -
  from assms(3) obtain i where "i < count_less cmp c k" "i < length c" "e = c ! i"
    by (auto simp: in_set_conv_nth)
  then show ?thesis using less_prefix_swo [OF assms(1,2), of i k] by simp
qed

lemma after_greater_absent:
  assumes swo: "strict_weak_order cmp" and asc: "ascending cmp c"
    and no: "\<not> has_key cmp c k" and e: "e \<in> set (drop (count_less cmp c k) c)"
  shows "cmp k (key e)"
proof -
  let ?m = "count_less cmp c k"
  from e obtain j where j: "?m \<le> j" "j < length c" "e = c ! j" by (rule in_set_dropE)
  then have m: "?m < length c" by simp
  have first: "cmp k (key (c ! ?m))" by (rule no_key_position [OF swo asc no m])
  show ?thesis
  proof (cases "j = ?m")
    case True
    then show ?thesis using first j by simp
  next
    case False
    then have "cmp (key (c ! ?m)) (key (c ! j))"
      using j by (intro ascending_nth [OF asc]) simp_all
    then show ?thesis using first swo j swo_trans by metis
  qed
qed

lemma after_greater_present:
  assumes swo: "strict_weak_order cmp" and asc: "ascending cmp c"
    and has: "has_key cmp c k" and e: "e \<in> set (drop (Suc (count_less cmp c k)) c)"
  shows "cmp k (key e)"
proof -
  let ?m = "count_less cmp c k"
  from e obtain j where j: "Suc ?m \<le> j" "j < length c" "e = c ! j" by (rule in_set_dropE)
  have "cmp (key (c ! ?m)) (key (c ! j))"
    using j by (intro ascending_nth [OF asc]) simp_all
  moreover have "equiv_keys cmp k (key (c ! ?m))"
    using has_key_position [OF swo asc has] by (simp add: equiv_keys_sym)
  ultimately show ?thesis using swo j swo_equiv_less by metis
qed

lemma has_key_remove:
  assumes swo: "strict_weak_order cmp" and asc: "ascending cmp c"
  shows "\<not> has_key cmp (take (count_less cmp c k) c @ drop (Suc (count_less cmp c k)) c) k"
proof (cases "has_key cmp c k")
  case True
  show ?thesis
    using before_less [OF swo asc, of _ k] after_greater_present [OF swo asc True]
    by (auto simp: has_key_def equiv_keys_def)
next
  case False
  then show ?thesis
    by (auto simp: has_key_def dest: in_set_takeD in_set_dropD)
qed

lemma equiv_keys_refl: "strict_weak_order cmp \<Longrightarrow> equiv_keys cmp k k"
  by (simp add: equiv_keys_def swo_irrefl)

lemma nth_insert_at: "m \<le> length c \<Longrightarrow> (take m c @ x # drop m c) ! m = x"
  by (simp add: nth_append)

text \<open>What \<open>Set\<close> leaves behind: an ascending container with \<open>v\<close> at \<open>k\<close>.\<close>

lemma Set_result:
  assumes swo: "strict_weak_order cmp" and asc: "ascending cmp c"
    and set: "Set cmp c k v ppos = Inr (c', added, ppos')"
  shows "ascending cmp c' \<and> has_key cmp c' k \<and> count_less cmp c' k = count_less cmp c k \<and>
         count_less cmp c k < length c' \<and> val (c' ! count_less cmp c k) = v \<and>
         equiv_keys cmp (key (c' ! count_less cmp c k)) k"
proof (cases "has_key cmp c k")
  case True
  let ?m = "count_less cmp c k"
  from has_key_position [OF swo asc True]
  have m: "?m < length c" and eq: "equiv_keys cmp (key (c ! ?m)) k" by simp_all
  have c': "c' = c[?m := (c ! ?m)\<lparr>val := v\<rparr>]"
    using set True by (simp add: Set_ascending [OF swo asc])
  have asc': "ascending cmp c'" unfolding c' by (rule ascending_assign [OF asc m])
  have at: "?m < length c'" "key (c' ! ?m) = key (c ! ?m)" "val (c' ! ?m) = v"
    using m by (simp_all add: c')
  then have "equiv_keys cmp (key (c' ! ?m)) k" using eq by simp
  from count_less_at [OF swo asc' at(1) this] asc' at this show ?thesis by simp
next
  case False
  let ?m = "count_less cmp c k"
  have le: "?m \<le> length c" by (rule count_less_le)
  have c': "c' = take ?m c @ \<lparr>key = k, val = v\<rparr> # drop ?m c"
    using set False by (simp add: Set_ascending [OF swo asc])
  have asc': "ascending cmp c'" unfolding c' by (rule ascending_insert [OF swo asc False])
  have at: "?m < length c'" "c' ! ?m = \<lparr>key = k, val = v\<rparr>"
    using le by (simp_all add: c' nth_insert_at)
  then have "equiv_keys cmp (key (c' ! ?m)) k" using swo by (simp add: equiv_keys_refl)
  from count_less_at [OF swo asc' at(1) this] asc' at this show ?thesis by simp
qed

subsection \<open>What a successful Insert did\<close>

lemma Insert_Inr:
  assumes "Insert cmp c k v pos = Inr c'"
  shows "0 \<le> pos \<and> pos \<le> int (length c) \<and>
         (pos \<noteq> 0 \<longrightarrow> cmp (key (c ! nat (pos - 1))) k) \<and>
         (pos \<noteq> int (length c) \<longrightarrow> \<not> cmp (key (c ! nat pos)) k) \<and>
         c' = take (nat pos) c @ \<lparr>key = k, val = v\<rparr> # drop (nat pos) c"
proof -
  have rng: "0 \<le> pos \<and> pos \<le> int (length c)"
    using assms by (cases "0 \<le> pos \<and> pos \<le> int (length c)") (simp_all add: Insert_def assert_def Num_def)
  have a2: "pos \<noteq> 0 \<longrightarrow> cmp (key (c ! nat (pos - 1))) k"
  proof
    assume p: "pos \<noteq> 0"
    then have "at c (pos - 1) = Inr (c ! nat (pos - 1))" using rng by (intro at_in_range) simp_all
    then show "cmp (key (c ! nat (pos - 1))) k"
      using assms rng p
      by (cases "cmp (key (c ! nat (pos - 1))) k") (simp_all add: Insert_def assert_def Num_def)
  qed
  have a3: "pos \<noteq> int (length c) \<longrightarrow> \<not> cmp (key (c ! nat pos)) k"
  proof
    assume p: "pos \<noteq> int (length c)"
    then have rd: "at c pos = Inr (c ! nat pos)" using rng by (intro at_in_range) simp_all
    have e2: "(if pos = 0 then Inr True
               else ebind (at c (pos - 1)) (\<lambda>kv. Inr (cmp (key kv) k = True))) = Inr True"
      using a2 rng by (cases "pos = 0") (simp_all add: at_in_range)
    show "\<not> cmp (key (c ! nat pos)) k"
    proof
      assume "cmp (key (c ! nat pos)) k"
      then have "Insert cmp c k v pos = Inl AssertFailed"
        unfolding Insert_def e2 using rng p rd by (simp add: assert_def Num_def)
      then show False using assms by simp
    qed
  qed
  have e2: "(if pos = 0 then Inr True
             else ebind (at c (pos - 1)) (\<lambda>kv. Inr (cmp (key kv) k = True))) = Inr True"
    using a2 rng by (cases "pos = 0") (simp_all add: at_in_range)
  have e3: "(if pos = Num c then Inr True
             else ebind (at c pos) (\<lambda>kv. Inr (cmp (key kv) k = False))) = Inr True"
    using a3 rng by (cases "pos = int (length c)") (simp_all add: at_in_range Num_def)
  have "Insert cmp c k v pos = Inr (take (nat pos) c @ \<lparr>key = k, val = v\<rparr> # drop (nat pos) c)"
    unfolding Insert_def e2 e3 using rng by (simp add: assert_def list_Insert_def Num_def)
  then show ?thesis using assms rng a2 a3 by simp
qed

subsection \<open>Every operation keeps the order\<close>

lemma Insert_keeps:
  assumes swo: "strict_weak_order cmp" and asc: "ascending cmp c"
    and pre: "Insert_pre cmp c k pos" and ins: "Insert cmp c k v pos = Inr c'"
  shows "ascending cmp c'"
proof -
  let ?m = "nat pos"
  from Insert_Inr [OF ins]
  have rng: "0 \<le> pos" "pos \<le> int (length c)"
    and c': "c' = take ?m c @ \<lparr>key = k, val = v\<rparr> # drop ?m c"
    by simp_all
  have le: "?m \<le> length c" using rng by simp
  have before: "cmp (key (c ! (?m - 1))) k" if "?m \<noteq> 0"
  proof -
    have "pos \<noteq> 0" using that by auto
    moreover have "nat (pos - 1) = ?m - 1" by simp
    ultimately show ?thesis using pre by (simp add: Insert_pre_def)
  qed
  have after: "cmp k (key (c ! ?m))" if "?m \<noteq> length c"
  proof -
    have "?m < length c" using that le by simp
    then have "pos \<noteq> Num c" by (auto simp: Num_def)
    then show ?thesis using pre by (simp add: Insert_pre_def)
  qed
  show ?thesis
    unfolding c' by (rule ascending_insert_between [OF swo asc le before after])
qed

lemma AddIfNew_keeps:
  assumes swo: "strict_weak_order cmp" and asc: "ascending cmp c"
    and add: "AddIfNew cmp c k v ppos = Inr (c', added, ppos')"
  shows "ascending cmp c'"
proof (cases "has_key cmp c k")
  case True
  then have "c' = c" using add by (simp add: AddIfNew_ascending [OF swo asc])
  then show ?thesis using asc by simp
next
  case False
  then have "c' = take (count_less cmp c k) c @ \<lparr>key = k, val = v\<rparr> # drop (count_less cmp c k) c"
    using add by (simp add: AddIfNew_ascending [OF swo asc])
  then show ?thesis using ascending_insert [OF swo asc False, of v] by simp
qed

lemma Remove_keeps:
  assumes swo: "strict_weak_order cmp" and asc: "ascending cmp c"
    and rem: "Remove cmp c k ppos = Inr (c', removed, ppos')"
  shows "ascending cmp c'"
proof (cases "has_key cmp c k")
  case True
  then have "c' = take (count_less cmp c k) c @ drop (Suc (count_less cmp c k)) c"
    using rem by (simp add: Remove_ascending [OF swo asc])
  then show ?thesis using ascending_remove [OF asc, of "count_less cmp c k"] by simp
next
  case False
  then have "c' = c" using rem by (simp add: Remove_ascending [OF swo asc])
  then show ?thesis using asc by simp
qed

lemma subscript_keeps:
  assumes swo: "strict_weak_order cmp" and asc: "ascending cmp c"
    and sub: "subscript cmp dflt c k = Inr (c', pos)"
  shows "ascending cmp c'"
proof (cases "has_key cmp c k")
  case True
  then have "c' = c" using sub by (simp add: subscript_ascending [OF swo asc])
  then show ?thesis using asc by simp
next
  case False
  then have "c' = take (count_less cmp c k) c @ \<lparr>key = k, val = dflt\<rparr> # drop (count_less cmp c k) c"
    using sub by (simp add: subscript_ascending [OF swo asc])
  then show ?thesis using ascending_insert [OF swo asc False, of dflt] by simp
qed

lemma assign_value_keeps:
  assumes asc: "ascending cmp c" and asg: "assign_value c pos v = Inr c'"
  shows "ascending cmp c'"
proof -
  have rng: "0 \<le> pos \<and> pos < int (length c)"
    using asg by (cases "0 \<le> pos \<and> pos < int (length c)") (simp_all add: assign_value_def at_def Num_def)
  then have "c' = c[nat pos := (c ! nat pos)\<lparr>val := v\<rparr>]"
    using asg by (simp add: assign_value_def at_in_range)
  moreover have "nat pos < length c" using rng by (simp add: nat_less_iff)
  ultimately show ?thesis using ascending_assign [OF asc] by simp
qed

lemma RemoveIndex_keeps:
  assumes asc: "ascending cmp c" and rem: "RemoveIndex c pos = Inr c'"
  shows "ascending cmp c'"
proof -
  have "c' = take (nat pos) c @ drop (Suc (nat pos)) c"
    using rem
    by (cases "0 \<le> pos \<and> pos < Num c") (simp_all add: RemoveIndex_def list_RemoveIndex_def)
  then show ?thesis using ascending_remove [OF asc, of "nat pos"] by simp
qed

lemma reachable_ascending:
  assumes swo: "strict_weak_order cmp"
  shows "reachable cmp dflt c \<Longrightarrow> ascending cmp c"
proof (induction rule: reachable.induct)
  case by_empty
  show ?case by (simp add: ascending_def)
next
  case (by_Set c k v ppos c' added ppos')
  from Set_result [OF swo by_Set.IH by_Set.hyps(2)] show ?case by simp
next
  case (by_AddIfNew c k v ppos c' added ppos')
  from AddIfNew_keeps [OF swo by_AddIfNew.IH by_AddIfNew.hyps(2)] show ?case .
next
  case (by_subscript c k c' pos)
  from subscript_keeps [OF swo by_subscript.IH by_subscript.hyps(2)] show ?case .
next
  case (by_subscript_assign c k c' pos v c'')
  from subscript_keeps [OF swo by_subscript_assign.IH by_subscript_assign.hyps(2)]
  have "ascending cmp c'" .
  from assign_value_keeps [OF this by_subscript_assign.hyps(3)] show ?case .
next
  case (by_Insert c k pos v c')
  from Insert_keeps [OF swo by_Insert.IH by_Insert.hyps(2) by_Insert.hyps(3)] show ?case .
next
  case (by_Remove c k ppos c' removed ppos')
  from Remove_keeps [OF swo by_Remove.IH by_Remove.hyps(2)] show ?case .
next
  case (by_RemoveIndex c pos c')
  from RemoveIndex_keeps [OF by_RemoveIndex.IH by_RemoveIndex.hyps(2)] show ?case .
next
  case (by_Clear c freeBuffer)
  show ?case by (simp add: Clear_def list_Clear_def ascending_def)
next
  case (by_Reserve c count)
  then show ?case by (simp add: Reserve_def list_Reserve_def)
next
  case (by_Swap c other c' other')
  then show ?case by (simp add: Swap_def list_Swap_def)
next
  case (by_Swap_other c other c' other')
  then show ?case by (simp add: Swap_def list_Swap_def)
qed

subsection \<open>The entry found for a key\<close>

lemma find_skip: "\<not> P x \<Longrightarrow> find P (xs @ x # ys) = find P (xs @ ys)"
  by (induction xs) simp_all

lemma find_hit: "\<forall>e \<in> set xs. \<not> P e \<Longrightarrow> P x \<Longrightarrow> find P (xs @ x # ys) = Some x"
  by (induction xs) simp_all

lemma equiv_keys_cong:
  assumes "strict_weak_order cmp" "equiv_keys cmp k K"
  shows "equiv_keys cmp a K = equiv_keys cmp a k"
  using assms swo_equiv_trans [of cmp a K k] swo_equiv_trans [of cmp a k K]
    equiv_keys_sym [of cmp k K]
  by blast

lemma has_key_cong:
  assumes "strict_weak_order cmp" "equiv_keys cmp k K"
  shows "has_key cmp c K = has_key cmp c k"
  by (simp add: has_key_def equiv_keys_cong [OF assms])

lemma stored_None_iff: "stored cmp c K = None \<longleftrightarrow> \<not> has_key cmp c K"
  by (auto simp: stored_def has_key_def find_None_iff)

lemma before_not_equiv:
  assumes swo: "strict_weak_order cmp" and asc: "ascending cmp c" and eq: "equiv_keys cmp k K"
    and e: "e \<in> set (take (count_less cmp c k) c)"
  shows "\<not> equiv_keys cmp (key e) K"
proof -
  have "cmp (key e) k" by (rule before_less [OF swo asc e])
  then have "\<not> equiv_keys cmp (key e) k" by (simp add: equiv_keys_def)
  then show ?thesis by (simp add: equiv_keys_cong [OF swo eq])
qed

lemma Find_find:
  assumes swo: "strict_weak_order cmp" and asc: "ascending cmp c"
  shows "Find cmp c K = Inr (find (\<lambda>e. equiv_keys cmp (key e) K) c)"
proof (cases "has_key cmp c K")
  case True
  let ?m = "count_less cmp c K"
  from has_key_position [OF swo asc True]
  have m: "?m < length c" and eq: "equiv_keys cmp (key (c ! ?m)) K" by simp_all
  have "\<forall>e \<in> set (take ?m c). \<not> equiv_keys cmp (key e) K"
    using before_not_equiv [OF swo asc equiv_keys_refl [OF swo]] by blast
  then have "find (\<lambda>e. equiv_keys cmp (key e) K) (take ?m c @ c ! ?m # drop (Suc ?m) c)
             = Some (c ! ?m)"
    using eq by (intro find_hit) simp_all
  then have "find (\<lambda>e. equiv_keys cmp (key e) K) c = Some (c ! ?m)"
    using m by (simp add: id_take_nth_drop [symmetric])
  then show ?thesis using True by (simp add: Find_ascending [OF swo asc])
next
  case False
  then have "find (\<lambda>e. equiv_keys cmp (key e) K) c = None"
    by (simp add: find_None_iff has_key_def)
  then show ?thesis using False by (simp add: Find_ascending [OF swo asc])
qed

lemma Find_stored:
  assumes "strict_weak_order cmp" "ascending cmp c"
  shows "\<exists>r. Find cmp c K = Inr r \<and> map_option val r = stored cmp c K"
  by (simp add: Find_find [OF assms] stored_def)

lemma stored_insert:
  assumes swo: "strict_weak_order cmp" and asc: "ascending cmp c" and no: "\<not> has_key cmp c k"
  shows "stored cmp (take (count_less cmp c k) c @ \<lparr>key = k, val = v\<rparr> # drop (count_less cmp c k) c) K
         = (if equiv_keys cmp k K then Some v else stored cmp c K)"
proof (cases "equiv_keys cmp k K")
  case True
  have "\<forall>e \<in> set (take (count_less cmp c k) c). \<not> equiv_keys cmp (key e) K"
    using before_not_equiv [OF swo asc True] by blast
  then have "find (\<lambda>e. equiv_keys cmp (key e) K)
               (take (count_less cmp c k) c @ \<lparr>key = k, val = v\<rparr> # drop (count_less cmp c k) c)
             = Some \<lparr>key = k, val = v\<rparr>"
    using True by (intro find_hit) simp_all
  then show ?thesis using True by (simp add: stored_def)
next
  case False
  then have "find (\<lambda>e. equiv_keys cmp (key e) K)
               (take (count_less cmp c k) c @ \<lparr>key = k, val = v\<rparr> # drop (count_less cmp c k) c)
             = find (\<lambda>e. equiv_keys cmp (key e) K)
               (take (count_less cmp c k) c @ drop (count_less cmp c k) c)"
    by (intro find_skip) simp
  then show ?thesis using False by (simp add: stored_def)
qed

lemma stored_assign:
  assumes swo: "strict_weak_order cmp" and asc: "ascending cmp c" and has: "has_key cmp c k"
  shows "stored cmp (c[count_less cmp c k := (c ! count_less cmp c k)\<lparr>val := v\<rparr>]) K
         = (if equiv_keys cmp k K then Some v else stored cmp c K)"
proof -
  let ?m = "count_less cmp c k"
  let ?e = "(c ! ?m)\<lparr>val := v\<rparr>"
  let ?P = "\<lambda>e. equiv_keys cmp (key e) K"
  from has_key_position [OF swo asc has]
  have m: "?m < length c" and eq: "equiv_keys cmp (key (c ! ?m)) k" by simp_all
  have upd: "c[?m := ?e] = take ?m c @ ?e # drop (Suc ?m) c"
    using m by (rule upd_conv_take_nth_drop)
  have orig: "c = take ?m c @ c ! ?m # drop (Suc ?m) c"
    using m by (rule id_take_nth_drop)
  show ?thesis
  proof (cases "equiv_keys cmp k K")
    case True
    have "\<forall>e \<in> set (take ?m c). \<not> ?P e"
      using before_not_equiv [OF swo asc True] by blast
    moreover have "?P ?e" using eq True swo swo_equiv_trans [of cmp "key (c ! ?m)" k K] by simp
    ultimately have "find ?P (take ?m c @ ?e # drop (Suc ?m) c) = Some ?e"
      by (rule find_hit)
    then show ?thesis using True by (simp add: stored_def upd)
  next
    case False
    have ne: "\<not> equiv_keys cmp (key (c ! ?m)) K"
      using False eq swo swo_equiv_trans [of cmp k "key (c ! ?m)" K] equiv_keys_sym [of cmp "key (c ! ?m)" k]
      by blast
    then have "\<not> ?P ?e" by simp
    then have "find ?P (take ?m c @ ?e # drop (Suc ?m) c) = find ?P (take ?m c @ drop (Suc ?m) c)"
      by (rule find_skip)
    also have "\<dots> = find ?P (take ?m c @ c ! ?m # drop (Suc ?m) c)"
      using ne by (simp add: find_skip)
    also have "\<dots> = find ?P c" using orig by simp
    finally show ?thesis using False by (simp add: stored_def upd)
  qed
qed

lemma stored_remove:
  assumes swo: "strict_weak_order cmp" and asc: "ascending cmp c" and has: "has_key cmp c k"
  shows "stored cmp (take (count_less cmp c k) c @ drop (Suc (count_less cmp c k)) c) K
         = (if equiv_keys cmp k K then None else stored cmp c K)"
proof -
  let ?m = "count_less cmp c k"
  let ?P = "\<lambda>e. equiv_keys cmp (key e) K"
  from has_key_position [OF swo asc has]
  have m: "?m < length c" and eq: "equiv_keys cmp (key (c ! ?m)) k" by simp_all
  have orig: "c = take ?m c @ c ! ?m # drop (Suc ?m) c"
    using m by (rule id_take_nth_drop)
  show ?thesis
  proof (cases "equiv_keys cmp k K")
    case True
    have "\<not> has_key cmp (take ?m c @ drop (Suc ?m) c) K"
      using has_key_remove [OF swo asc, of k] by (simp add: has_key_cong [OF swo True])
    then show ?thesis using True by (simp add: stored_None_iff)
  next
    case False
    have ne: "\<not> equiv_keys cmp (key (c ! ?m)) K"
      using False eq swo swo_equiv_trans [of cmp k "key (c ! ?m)" K] equiv_keys_sym [of cmp "key (c ! ?m)" k]
      by blast
    have "find ?P (take ?m c @ drop (Suc ?m) c) = find ?P (take ?m c @ c ! ?m # drop (Suc ?m) c)"
      using ne by (simp add: find_skip)
    also have "\<dots> = find ?P c" using orig by simp
    finally show ?thesis using False by (simp add: stored_def)
  qed
qed


subsection \<open>A call against its specification\<close>

lemma apply_call_correct:
  assumes swo: "strict_weak_order cmp" and asc: "ascending cmp c"
  shows "\<exists>c'. apply_call cmp dflt c x = Inr c' \<and> ascending cmp c' \<and>
           (\<forall>K. stored cmp c' K = spec_call cmp dflt x (stored cmp c) K)"
proof (cases x)
  case (CallSet k v)
  show ?thesis
  proof (cases "has_key cmp c k")
    case True
    from has_key_position [OF swo asc True] have "count_less cmp c k < length c" by simp
    then show ?thesis
      using True CallSet
      by (simp add: Set_ascending [OF swo asc] ascending_assign [OF asc]
          stored_assign [OF swo asc True])
  next
    case False
    then show ?thesis
      using CallSet
      by (simp add: Set_ascending [OF swo asc] ascending_insert [OF swo asc False]
          stored_insert [OF swo asc False])
  qed
next
  case (CallAddIfNew k v)
  show ?thesis
  proof (cases "has_key cmp c k")
    case True
    have "(case stored cmp c K of None \<Rightarrow> Some v | Some w \<Rightarrow> Some w) = stored cmp c K"
      if "equiv_keys cmp k K" for K
    proof -
      have "stored cmp c K \<noteq> None"
        using True that by (simp add: stored_None_iff has_key_cong [OF swo that])
      then show ?thesis by (cases "stored cmp c K") simp_all
    qed
    then show ?thesis
      using True CallAddIfNew asc
      by (simp add: AddIfNew_ascending [OF swo asc])
  next
    case False
    have "stored cmp c K = None" if "equiv_keys cmp k K" for K
      using False that by (simp add: stored_None_iff has_key_cong [OF swo that])
    then show ?thesis
      using False CallAddIfNew
      by (simp add: AddIfNew_ascending [OF swo asc] ascending_insert [OF swo asc False]
          stored_insert [OF swo asc False])
  qed
next
  case (CallSubscript k)
  show ?thesis
  proof (cases "has_key cmp c k")
    case True
    have "(case stored cmp c K of None \<Rightarrow> Some dflt | Some w \<Rightarrow> Some w) = stored cmp c K"
      if "equiv_keys cmp k K" for K
    proof -
      have "stored cmp c K \<noteq> None"
        using True that by (simp add: stored_None_iff has_key_cong [OF swo that])
      then show ?thesis by (cases "stored cmp c K") simp_all
    qed
    then show ?thesis
      using True CallSubscript asc
      by (simp add: subscript_ascending [OF swo asc])
  next
    case False
    have "stored cmp c K = None" if "equiv_keys cmp k K" for K
      using False that by (simp add: stored_None_iff has_key_cong [OF swo that])
    then show ?thesis
      using False CallSubscript
      by (simp add: subscript_ascending [OF swo asc] ascending_insert [OF swo asc False]
          stored_insert [OF swo asc False])
  qed
next
  case (CallAssign k v)
  let ?m = "count_less cmp c k"
  show ?thesis
  proof (cases "has_key cmp c k")
    case True
    from has_key_position [OF swo asc True] have m: "?m < length c" by simp
    then have "assign_value c (int ?m) v = Inr (c[?m := (c ! ?m)\<lparr>val := v\<rparr>])"
      by (simp add: assign_value_def at_in_range)
    then show ?thesis
      using True CallAssign m
      by (simp add: subscript_ascending [OF swo asc] ascending_assign [OF asc]
          stored_assign [OF swo asc True])
  next
    case False
    let ?c1 = "take ?m c @ \<lparr>key = k, val = dflt\<rparr> # drop ?m c"
    have le: "?m \<le> length c" by (rule count_less_le)
    then have m1: "?m < length ?c1" and at1: "?c1 ! ?m = \<lparr>key = k, val = dflt\<rparr>"
      by (simp_all add: nth_insert_at)
    have upd: "?c1[?m := (?c1 ! ?m)\<lparr>val := v\<rparr>] = take ?m c @ \<lparr>key = k, val = v\<rparr> # drop ?m c"
      using le by (simp add: at1 list_update_append)
    have "assign_value ?c1 (int ?m) v = Inr (?c1[?m := (?c1 ! ?m)\<lparr>val := v\<rparr>])"
      using m1 by (simp only: assign_value_def) (simp add: at_in_range)
    then have "assign_value ?c1 (int ?m) v = Inr (take ?m c @ \<lparr>key = k, val = v\<rparr> # drop ?m c)"
      by (simp only: upd)
    then show ?thesis
      using False CallAssign
      by (simp add: subscript_ascending [OF swo asc] ascending_insert [OF swo asc False]
          stored_insert [OF swo asc False])
  qed
next
  case (CallRemove k)
  show ?thesis
  proof (cases "has_key cmp c k")
    case True
    then show ?thesis
      using CallRemove
      by (simp add: Remove_ascending [OF swo asc] ascending_remove [OF asc]
          stored_remove [OF swo asc True])
  next
    case False
    have "stored cmp c K = None" if "equiv_keys cmp k K" for K
      using False that by (simp add: stored_None_iff has_key_cong [OF swo that])
    then show ?thesis
      using False CallRemove asc
      by (simp add: Remove_ascending [OF swo asc])
  qed
next
  case (CallClear freeBuffer)
  then show ?thesis
    by (simp add: Clear_def list_Clear_def ascending_def stored_def)
next
  case (CallReserve count)
  then show ?thesis
    using asc by (simp add: Reserve_def list_Reserve_def)
qed

lemma run_correct:
  assumes swo: "strict_weak_order cmp"
  shows "ascending cmp c \<Longrightarrow>
         \<exists>c'. run cmp dflt c calls = Inr c' \<and> ascending cmp c' \<and>
           stored cmp c' = spec_last_value cmp dflt (stored cmp c) calls"
proof (induction calls arbitrary: c)
  case Nil
  then show ?case by simp
next
  case (Cons x xs)
  from apply_call_correct [OF swo Cons.prems, of dflt x]
  obtain c1 where step: "apply_call cmp dflt c x = Inr c1" and asc1: "ascending cmp c1"
    and st: "\<forall>K. stored cmp c1 K = spec_call cmp dflt x (stored cmp c) K"
    by blast
  from st have st': "stored cmp c1 = spec_call cmp dflt x (stored cmp c)"
    by (intro ext) simp
  from Cons.IH [OF asc1] obtain c' where "run cmp dflt c1 xs = Inr c'" "ascending cmp c'"
    "stored cmp c' = spec_last_value cmp dflt (stored cmp c1) xs"
    by blast
  then show ?case using step st' by simp
qed

subsection \<open>Evaluation\<close>

text \<open>The definitions unfolded to run the operations on a concrete container.\<close>

lemmas run_defs =
  Set_def AddIfNew_def Remove_def Find_def FindIndex_def Get_def subscript_def Insert_def
  RemoveIndex_def key_at_def assign_value_def store_def assert_def
  FirstGE_def FirstGE_run_def FirstGE_loop.simps
  at_def Num_def list_Insert_def list_RemoveIndex_def idLess_def

section \<open>The claims\<close>

lemma swo_idLess: "strict_weak_order (idLess :: 'a::linorder \<Rightarrow> 'a \<Rightarrow> bool)"
  by (auto simp: strict_weak_order_def equiv_keys_def idLess_def)

text \<open>
  C9. For every container, ascending or not, and every key, \<open>FirstGE\<close> returns:
  the loop is a total function (its \<open>span\<close> decreases in every iteration,
  which is its termination proof), it never reads outside the container, every
  index it reads lies in \<open>[0, N - 1]\<close>, it reads at most \<open>N\<close> times, and its
  result lies in \<open>[0, N]\<close>. On the empty container it returns \<open>0\<close> without a
  read, hence without a call of the comparator.
\<close>

theorem FirstGE_total_in_bounds:
  "\<exists>pos probes. FirstGE_run cmp c k = Inr (pos, probes) \<and> FirstGE cmp c k = Inr pos \<and>
     0 \<le> pos \<and> pos \<le> Num c \<and>
     (\<forall>i \<in> set probes. 0 \<le> i \<and> i \<le> Num c - 1) \<and>
     int (length probes) \<le> Num c \<and>
     (c = [] \<longrightarrow> pos = 0 \<and> probes = [])"
proof -
  obtain r ps where run: "FirstGE_loop cmp c k (- 1) (Num c + 1) [] = Inr (r, [] @ ps)"
    and ps: "\<forall>i \<in> set ps. 0 \<le> i \<and> i < Num c"
    and len: "int (length ps) \<le> max 0 (Num c + 1 - 1)"
    and r: "- 1 \<le> r" "r < - 1 + max 1 (Num c + 1)"
    using FirstGE_loop_safe [of "- 1" "Num c + 1" c cmp k "[]"] by auto
  have n: "0 \<le> Num c" by (simp add: Num_def)
  have "FirstGE_run cmp c k = Inr (r + 1, ps)"
    using run by (simp add: FirstGE_run_def)
  moreover from this have "FirstGE cmp c k = Inr (r + 1)"
    by (simp add: FirstGE_def)
  moreover have "0 \<le> r + 1" "r + 1 \<le> Num c"
    using r n by simp_all
  moreover have "\<forall>i \<in> set ps. 0 \<le> i \<and> i \<le> Num c - 1"
    using ps by auto
  moreover have "int (length ps) \<le> Num c"
    using len n by simp
  moreover have "c = [] \<longrightarrow> r + 1 = 0 \<and> ps = []"
    using len r by (auto simp: Num_def)
  ultimately show ?thesis by blast
qed

theorem FirstGE_total_in_bounds_witness:
  "FirstGE_run idLess ([] :: (int, string) container) 15 = Inr (0, []) \<and>
   FirstGE_run idLess [\<lparr>key = 10 :: int, val = ''a''\<rparr>, \<lparr>key = 20, val = ''b''\<rparr>] 15
     = Inr (1, [0, 1]) \<and>
   Num [\<lparr>key = 10 :: int, val = ''a''\<rparr>, \<lparr>key = 20, val = ''b''\<rparr>] - 1 = 1"
  using FirstGE_total_in_bounds [of idLess "[] :: (int, string) container" 15]
    FirstGE_total_in_bounds [of idLess "[\<lparr>key = 10 :: int, val = ''a''\<rparr>, \<lparr>key = 20, val = ''b''\<rparr>]" 15]
  by (simp add: FirstGE_run_def FirstGE_loop.simps Num_def at_def idLess_def)

text \<open>
  C1. On a container whose entries are strictly ascending by key under a strict
  weak ordering, \<open>FirstGE k\<close> returns the number of entries whose key is
  strictly less than \<open>k\<close>. That number \<open>pos\<close> is the smallest index in \<open>[0, N]\<close>
  whose entry, if there is one, has a key not less than \<open>k\<close>: the entry at
  \<open>pos\<close> is not less than \<open>k\<close>, and every entry before \<open>pos\<close> is.
\<close>

theorem FirstGE_lower_bound:
  assumes "strict_weak_order cmp" and "ascending cmp c"
  shows "FirstGE cmp c k = Inr (int (count_less cmp c k)) \<and>
         count_less cmp c k \<le> length c \<and>
         (count_less cmp c k < length c \<longrightarrow> \<not> cmp (key (c ! count_less cmp c k)) k) \<and>
         (\<forall>i < count_less cmp c k. cmp (key (c ! i)) k)"
proof -
  let ?m = "count_less cmp c k"
  have le: "?m \<le> length c" by (rule count_less_le)
  have "?m < length c \<longrightarrow> \<not> cmp (key (c ! ?m)) k"
    using less_prefix_swo [OF assms, of ?m k] by simp
  moreover have "\<forall>i < ?m. cmp (key (c ! i)) k"
    using less_prefix_swo [OF assms, of _ k] le by simp
  ultimately show ?thesis
    using FirstGE_ascending [OF assms, of k] le by simp
qed

theorem FirstGE_lower_bound_witness:
  "strict_weak_order (idLess :: int \<Rightarrow> int \<Rightarrow> bool) \<and>
   ascending idLess [\<lparr>key = 10 :: int, val = ''a''\<rparr>, \<lparr>key = 20, val = ''b''\<rparr>] \<and>
   FirstGE idLess [\<lparr>key = 10 :: int, val = ''a''\<rparr>, \<lparr>key = 20, val = ''b''\<rparr>] 15 = Inr 1 \<and>
   FirstGE idLess [\<lparr>key = 10 :: int, val = ''a''\<rparr>, \<lparr>key = 20, val = ''b''\<rparr>] 5 = Inr 0 \<and>
   FirstGE idLess [\<lparr>key = 10 :: int, val = ''a''\<rparr>, \<lparr>key = 20, val = ''b''\<rparr>] 25 = Inr 2"
proof -
  let ?c = "[\<lparr>key = 10 :: int, val = ''a''\<rparr>, \<lparr>key = 20, val = ''b''\<rparr>]"
  have asc: "ascending idLess ?c"
    by (simp add: ascending_def idLess_def)
  show ?thesis
    using swo_idLess [where 'a = int] asc
      FirstGE_lower_bound [OF swo_idLess asc, of 15]
      FirstGE_lower_bound [OF swo_idLess asc, of 5]
      FirstGE_lower_bound [OF swo_idLess asc, of 25]
    by (simp add: count_less_def idLess_def)
qed

text \<open>
  C4. On an ascending container, \<open>Set k v ppos\<close> returns \<open>true\<close> exactly when no entry
  had a key comparing equal to \<open>k\<close>. In that case it inserts \<open>{k, v}\<close> at the index
  \<open>FirstGE\<close> gave, the number of entries with a key less than \<open>k\<close>, and the
  container stays ascending; otherwise it replaces only the value of the entry at
  that index. Either way the entry at that index afterwards has a key comparing
  equal to \<open>k\<close> and the value \<open>v\<close>, and that index is what is stored behind a
  non-null \<open>ppos\<close>. The witness is scenario A.
\<close>

theorem Set_overwrites_or_inserts:
  assumes "strict_weak_order cmp" and "ascending cmp c"
  shows "\<exists>c'. Set cmp c k v ppos =
                 Inr (c', \<not> has_key cmp c k, store ppos (int (count_less cmp c k))) \<and>
           (has_key cmp c k \<longrightarrow>
              c' = c[count_less cmp c k := (c ! count_less cmp c k)\<lparr>val := v\<rparr>]) \<and>
           (\<not> has_key cmp c k \<longrightarrow>
              c' = take (count_less cmp c k) c @ \<lparr>key = k, val = v\<rparr> # drop (count_less cmp c k) c) \<and>
           ascending cmp c' \<and>
           count_less cmp c k < length c' \<and>
           equiv_keys cmp (key (c' ! count_less cmp c k)) k \<and>
           val (c' ! count_less cmp c k) = v"
proof -
  obtain c' where set:
    "Set cmp c k v ppos = Inr (c', \<not> has_key cmp c k, store ppos (int (count_less cmp c k)))"
    by (cases "has_key cmp c k") (simp_all add: Set_ascending [OF assms])
  have shape: "(has_key cmp c k \<longrightarrow>
              c' = c[count_less cmp c k := (c ! count_less cmp c k)\<lparr>val := v\<rparr>]) \<and>
           (\<not> has_key cmp c k \<longrightarrow>
              c' = take (count_less cmp c k) c @ \<lparr>key = k, val = v\<rparr> # drop (count_less cmp c k) c)"
    using set by (simp add: Set_ascending [OF assms] split: if_splits)
  from Set_result [OF assms set] set shape show ?thesis by blast
qed

theorem Set_overwrites_or_inserts_witness:
  "strict_weak_order (idLess :: int \<Rightarrow> int \<Rightarrow> bool) \<and>
   ascending idLess ([] :: (int, string) container) \<and>
   Set idLess [] (5 :: int) ''a'' None = Inr ([\<lparr>key = 5, val = ''a''\<rparr>], True, None) \<and>
   Num [\<lparr>key = 5 :: int, val = ''a''\<rparr>] = 1 \<and>
   ascending idLess [\<lparr>key = 5 :: int, val = ''a''\<rparr>] \<and>
   Set idLess [\<lparr>key = 5 :: int, val = ''a''\<rparr>] 3 ''b'' (Some 7)
     = Inr ([\<lparr>key = 3, val = ''b''\<rparr>, \<lparr>key = 5, val = ''a''\<rparr>], True, Some 0) \<and>
   ascending idLess [\<lparr>key = 3 :: int, val = ''b''\<rparr>, \<lparr>key = 5, val = ''a''\<rparr>] \<and>
   has_key idLess [\<lparr>key = 3 :: int, val = ''b''\<rparr>, \<lparr>key = 5, val = ''a''\<rparr>] 5 \<and>
   Set idLess [\<lparr>key = 3 :: int, val = ''b''\<rparr>, \<lparr>key = 5, val = ''a''\<rparr>] 5 ''c'' (Some 7)
     = Inr ([\<lparr>key = 3, val = ''b''\<rparr>, \<lparr>key = 5, val = ''c''\<rparr>], False, Some 1) \<and>
   Num [\<lparr>key = 3 :: int, val = ''b''\<rparr>, \<lparr>key = 5, val = ''c''\<rparr>] = 2"
proof -
  let ?c0 = "[] :: (int, string) container"
  let ?c1 = "[\<lparr>key = 5 :: int, val = ''a''\<rparr>]"
  let ?c2 = "[\<lparr>key = 3 :: int, val = ''b''\<rparr>, \<lparr>key = 5, val = ''a''\<rparr>]"
  have a0: "ascending idLess ?c0" and a1: "ascending idLess ?c1" and a2: "ascending idLess ?c2"
    by (simp_all add: ascending_def idLess_def)
  have h: "has_key idLess ?c2 5"
    by (simp add: has_key_def equiv_keys_def idLess_def)
  have s0: "Set idLess ?c0 5 ''a'' None = Inr (?c1, True, None)"
    by (simp add: run_defs)
  have s1: "Set idLess ?c1 3 ''b'' (Some 7) = Inr (?c2, True, Some 0)"
    by (simp add: run_defs)
  have s2: "Set idLess ?c2 5 ''c'' (Some 7)
     = Inr ([\<lparr>key = 3, val = ''b''\<rparr>, \<lparr>key = 5, val = ''c''\<rparr>], False, Some 1)"
    by (simp add: run_defs)
  have n: "Num ?c1 = 1" "Num [\<lparr>key = 3 :: int, val = ''b''\<rparr>, \<lparr>key = 5, val = ''c''\<rparr>] = 2"
    by (simp_all add: Num_def)
  show ?thesis
    using swo_idLess [where 'a = int] a0 a1 a2 h s0 s1 s2 n
      Set_overwrites_or_inserts [OF swo_idLess a0, of 5 "''a''" None]
      Set_overwrites_or_inserts [OF swo_idLess a1, of 3 "''b''" "Some 7"]
      Set_overwrites_or_inserts [OF swo_idLess a2, of 5 "''c''" "Some 7"]
    by simp
qed


text \<open>
  C10. The frame of \<open>Set\<close> on an ascending container; \<open>pos\<close> is the index \<open>FirstGE\<close>
  gave, the number of entries with a key less than \<open>k\<close>. \<open>Set\<close> returns \<open>false\<close>
  exactly when an entry has a key comparing equal to \<open>k\<close>; the matched entry is
  then the one at \<open>pos\<close>, \<open>Num()\<close> is unchanged, every entry at another index is
  unchanged, and the matched entry keeps its key and gets the value \<open>v\<close>. \<open>Set\<close>
  returns \<open>true\<close> exactly when no entry has such a key; \<open>Num()\<close> then grows by
  one, the new entry \<open>{k, v}\<close> is at \<open>pos\<close>, and every entry that was there keeps
  its key and value: those before \<open>pos\<close> stay where they were, the others move
  up by one.
\<close>

theorem Set_frame:
  assumes "strict_weak_order cmp" and "ascending cmp c"
  shows "\<exists>c' added ppos'.
           Set cmp c k v ppos = Inr (c', added, ppos') \<and>
           (added \<longleftrightarrow> \<not> has_key cmp c k) \<and>
           (\<not> added \<longrightarrow>
              Num c' = Num c \<and>
              count_less cmp c k < length c \<and>
              equiv_keys cmp (key (c ! count_less cmp c k)) k \<and>
              (\<forall>i < length c. i \<noteq> count_less cmp c k \<longrightarrow> c' ! i = c ! i) \<and>
              key (c' ! count_less cmp c k) = key (c ! count_less cmp c k) \<and>
              val (c' ! count_less cmp c k) = v) \<and>
           (added \<longrightarrow>
              Num c' = Num c + 1 \<and>
              count_less cmp c k \<le> length c \<and>
              c' ! count_less cmp c k = \<lparr>key = k, val = v\<rparr> \<and>
              (\<forall>i < count_less cmp c k. c' ! i = c ! i) \<and>
              (\<forall>i. count_less cmp c k \<le> i \<and> i < length c \<longrightarrow> c' ! (i + 1) = c ! i))"
proof (cases "has_key cmp c k")
  case True
  let ?m = "count_less cmp c k"
  let ?c' = "c[?m := (c ! ?m)\<lparr>val := v\<rparr>]"
  from has_key_position [OF assms True]
  have m: "?m < length c" and eq: "equiv_keys cmp (key (c ! ?m)) k" by simp_all
  have set: "Set cmp c k v ppos = Inr (?c', False, store ppos (int ?m))"
    using True by (simp add: Set_ascending [OF assms])
  have others: "\<forall>i < length c. i \<noteq> ?m \<longrightarrow> ?c' ! i = c ! i"
    by simp
  have same: "key (?c' ! ?m) = key (c ! ?m)" "val (?c' ! ?m) = v"
    using m by simp_all
  have num: "Num ?c' = Num c" by (simp add: Num_def)
  from set True m eq others same num show ?thesis by blast
next
  case False
  let ?m = "count_less cmp c k"
  let ?c' = "take ?m c @ \<lparr>key = k, val = v\<rparr> # drop ?m c"
  have le: "?m \<le> length c" by (rule count_less_le)
  have set: "Set cmp c k v ppos = Inr (?c', True, store ppos (int ?m))"
    using False by (simp add: Set_ascending [OF assms])
  have new: "?c' ! ?m = \<lparr>key = k, val = v\<rparr>"
    using le by (rule nth_insert_at)
  have low: "\<forall>i < ?m. ?c' ! i = c ! i"
    using le by (simp add: nth_append)
  have high: "\<forall>i. ?m \<le> i \<and> i < length c \<longrightarrow> ?c' ! (i + 1) = c ! i"
    using le by (auto simp: nth_append Suc_diff_le)
  have num: "Num ?c' = Num c + 1" using le by (simp add: Num_def)
  from set False le new low high num show ?thesis by blast
qed

theorem Set_frame_witness:
  "strict_weak_order (idLess :: int \<Rightarrow> int \<Rightarrow> bool) \<and>
   ascending idLess [\<lparr>key = 3 :: int, val = ''b''\<rparr>, \<lparr>key = 5, val = ''a''\<rparr>] \<and>
   has_key idLess [\<lparr>key = 3 :: int, val = ''b''\<rparr>, \<lparr>key = 5, val = ''a''\<rparr>] 5 \<and>
   count_less idLess [\<lparr>key = 3 :: int, val = ''b''\<rparr>, \<lparr>key = 5, val = ''a''\<rparr>] 5 = 1 \<and>
   Set idLess [\<lparr>key = 3 :: int, val = ''b''\<rparr>, \<lparr>key = 5, val = ''a''\<rparr>] 5 ''c'' None
     = Inr ([\<lparr>key = 3, val = ''b''\<rparr>, \<lparr>key = 5, val = ''c''\<rparr>], False, None) \<and>
   \<not> has_key idLess [\<lparr>key = 3 :: int, val = ''b''\<rparr>, \<lparr>key = 5, val = ''a''\<rparr>] 4 \<and>
   count_less idLess [\<lparr>key = 3 :: int, val = ''b''\<rparr>, \<lparr>key = 5, val = ''a''\<rparr>] 4 = 1 \<and>
   Set idLess [\<lparr>key = 3 :: int, val = ''b''\<rparr>, \<lparr>key = 5, val = ''a''\<rparr>] 4 ''d'' None
     = Inr ([\<lparr>key = 3, val = ''b''\<rparr>, \<lparr>key = 4, val = ''d''\<rparr>, \<lparr>key = 5, val = ''a''\<rparr>], True, None) \<and>
   Num [\<lparr>key = 3 :: int, val = ''b''\<rparr>, \<lparr>key = 4, val = ''d''\<rparr>, \<lparr>key = 5, val = ''a''\<rparr>]
     = Num [\<lparr>key = 3 :: int, val = ''b''\<rparr>, \<lparr>key = 5, val = ''a''\<rparr>] + 1"
proof -
  let ?c = "[\<lparr>key = 3 :: int, val = ''b''\<rparr>, \<lparr>key = 5, val = ''a''\<rparr>]"
  have asc: "ascending idLess ?c"
    by (simp add: ascending_def idLess_def)
  have h5: "has_key idLess ?c 5" and h4: "\<not> has_key idLess ?c 4"
    by (simp_all add: has_key_def equiv_keys_def idLess_def)
  have n5: "count_less idLess ?c 5 = 1" and n4: "count_less idLess ?c 4 = 1"
    by (simp_all add: count_less_def idLess_def)
  have s1: "Set idLess ?c 5 ''c'' None
     = Inr ([\<lparr>key = 3, val = ''b''\<rparr>, \<lparr>key = 5, val = ''c''\<rparr>], False, None)"
    by (simp add: run_defs)
  have s2: "Set idLess ?c 4 ''d'' None
     = Inr ([\<lparr>key = 3, val = ''b''\<rparr>, \<lparr>key = 4, val = ''d''\<rparr>, \<lparr>key = 5, val = ''a''\<rparr>], True, None)"
    by (simp add: run_defs)
  have num: "Num [\<lparr>key = 3 :: int, val = ''b''\<rparr>, \<lparr>key = 4, val = ''d''\<rparr>, \<lparr>key = 5, val = ''a''\<rparr>]
     = Num ?c + 1"
    by (simp add: Num_def)
  show ?thesis
    using swo_idLess [where 'a = int] asc h5 h4 n5 n4 s1 s2 num
      Set_frame [OF swo_idLess asc, of 5 "''c''" None]
      Set_frame [OF swo_idLess asc, of 4 "''d''" None]
    by simp
qed





text \<open>
  C7. On an ascending container, \<open>Set k v\<close> returns, and \<open>Get k\<close> on the container it
  leaves returns \<open>v\<close> whatever the default is; \<open>Remove k\<close> returns, and \<open>Find k\<close> on
  the container it leaves returns \<open>NULL\<close>.
\<close>

theorem Set_Get_Remove_Find:
  assumes "strict_weak_order cmp" and "ascending cmp c"
  shows "(\<exists>c' added ppos'. Set cmp c k v ppos = Inr (c', added, ppos') \<and>
            Get cmp c' k dflt = Inr v) \<and>
         (\<exists>c' removed ppos'. Remove cmp c k ppos = Inr (c', removed, ppos') \<and>
            Find cmp c' k = Inr None)"
proof
  obtain r where "Set cmp c k v ppos = Inr r"
    by (simp add: Set_ascending [OF assms])
  then obtain c' added ppos' where set: "Set cmp c k v ppos = Inr (c', added, ppos')"
    by (cases r) simp
  from Set_result [OF assms set]
  have "Get cmp c' k dflt = Inr v"
    by (simp add: Get_ascending [OF assms(1)])
  with set show "\<exists>c' added ppos'. Set cmp c k v ppos = Inr (c', added, ppos') \<and>
      Get cmp c' k dflt = Inr v"
    by blast
next
  let ?m = "count_less cmp c k"
  obtain r where "Remove cmp c k ppos = Inr r"
    by (simp add: Remove_ascending [OF assms])
  then obtain c' removed ppos' where rem: "Remove cmp c k ppos = Inr (c', removed, ppos')"
    by (cases r) simp
  have "ascending cmp c' \<and> \<not> has_key cmp c' k"
  proof (cases "has_key cmp c k")
    case True
    then have "c' = take ?m c @ drop (Suc ?m) c"
      using rem by (simp add: Remove_ascending [OF assms])
    then show ?thesis
      using ascending_remove [OF assms(2), of ?m] has_key_remove [OF assms, of k] by simp
  next
    case False
    then have "c' = c" using rem by (simp add: Remove_ascending [OF assms])
    then show ?thesis using False assms(2) by simp
  qed
  then have "Find cmp c' k = Inr None"
    by (simp add: Find_ascending [OF assms(1)])
  with rem show "\<exists>c' removed ppos'. Remove cmp c k ppos = Inr (c', removed, ppos') \<and>
      Find cmp c' k = Inr None"
    by blast
qed

theorem Set_Get_Remove_Find_witness:
  "strict_weak_order (idLess :: int \<Rightarrow> int \<Rightarrow> bool) \<and>
   ascending idLess [\<lparr>key = 3 :: int, val = ''b''\<rparr>, \<lparr>key = 5, val = ''a''\<rparr>] \<and>
   Set idLess [\<lparr>key = 3 :: int, val = ''b''\<rparr>, \<lparr>key = 5, val = ''a''\<rparr>] 5 ''c'' None
     = Inr ([\<lparr>key = 3, val = ''b''\<rparr>, \<lparr>key = 5, val = ''c''\<rparr>], False, None) \<and>
   Get idLess [\<lparr>key = 3 :: int, val = ''b''\<rparr>, \<lparr>key = 5, val = ''c''\<rparr>] 5 ''z'' = Inr ''c'' \<and>
   Remove idLess [\<lparr>key = 3 :: int, val = ''b''\<rparr>, \<lparr>key = 5, val = ''a''\<rparr>] 5 None
     = Inr ([\<lparr>key = 3, val = ''b''\<rparr>], True, None) \<and>
   Find idLess [\<lparr>key = 3 :: int, val = ''b''\<rparr>] 5 = Inr None"
proof -
  let ?c = "[\<lparr>key = 3 :: int, val = ''b''\<rparr>, \<lparr>key = 5, val = ''a''\<rparr>]"
  have asc: "ascending idLess ?c"
    by (simp add: ascending_def idLess_def)
  have s: "Set idLess ?c 5 ''c'' None
     = Inr ([\<lparr>key = 3, val = ''b''\<rparr>, \<lparr>key = 5, val = ''c''\<rparr>], False, None)"
    by (simp add: run_defs)
  have g: "Get idLess [\<lparr>key = 3 :: int, val = ''b''\<rparr>, \<lparr>key = 5, val = ''c''\<rparr>] 5 ''z'' = Inr ''c''"
    by (simp add: run_defs)
  have r: "Remove idLess ?c 5 None = Inr ([\<lparr>key = 3, val = ''b''\<rparr>], True, None)"
    by (simp add: run_defs)
  have f: "Find idLess [\<lparr>key = 3 :: int, val = ''b''\<rparr>] 5 = Inr None"
    by (simp add: run_defs)
  show ?thesis
    using swo_idLess [where 'a = int] asc s g r f
      Set_Get_Remove_Find [OF swo_idLess asc, of 5 "''c''" None "''z''"]
    by simp
qed

text \<open>
  C8. On an ascending container without an entry whose key compares equal to
  \<open>k\<close>, the lookups return without a fault: \<open>Find k\<close> gives \<open>NULL\<close>, \<open>FindIndex k\<close>
  gives \<open>-1\<close> and \<open>Get k dflt\<close> gives \<open>dflt\<close>. The three are \<open>const\<close> member
  functions: they return no container, so the container, its count and its
  entries are the ones they were called on. The witness is scenario E.
\<close>

theorem lookup_absent:
  assumes "strict_weak_order cmp" and "ascending cmp c" and "\<not> has_key cmp c k"
  shows "Find cmp c k = Inr None \<and> FindIndex cmp c k = Inr (- 1) \<and> Get cmp c k dflt = Inr dflt"
  using assms(3)
  by (simp add: Find_ascending [OF assms(1,2)] FindIndex_ascending [OF assms(1,2)]
      Get_ascending [OF assms(1,2)])

theorem lookup_absent_witness:
  "strict_weak_order (idLess :: int \<Rightarrow> int \<Rightarrow> bool) \<and>
   ascending idLess [\<lparr>key = 3 :: int, val = ''b''\<rparr>, \<lparr>key = 5, val = ''a''\<rparr>] \<and>
   \<not> has_key idLess [\<lparr>key = 3 :: int, val = ''b''\<rparr>, \<lparr>key = 5, val = ''a''\<rparr>] 99 \<and>
   Find idLess [\<lparr>key = 3 :: int, val = ''b''\<rparr>, \<lparr>key = 5, val = ''a''\<rparr>] 99 = Inr None \<and>
   FindIndex idLess [\<lparr>key = 3 :: int, val = ''b''\<rparr>, \<lparr>key = 5, val = ''a''\<rparr>] 99 = Inr (- 1) \<and>
   Get idLess [\<lparr>key = 3 :: int, val = ''b''\<rparr>, \<lparr>key = 5, val = ''a''\<rparr>] 99 ''default''
     = Inr ''default''"
proof -
  let ?c = "[\<lparr>key = 3 :: int, val = ''b''\<rparr>, \<lparr>key = 5, val = ''a''\<rparr>]"
  have asc: "ascending idLess ?c"
    by (simp add: ascending_def idLess_def)
  have no: "\<not> has_key idLess ?c 99"
    by (simp add: has_key_def equiv_keys_def idLess_def)
  show ?thesis
    using swo_idLess [where 'a = int] asc no
      lookup_absent [OF swo_idLess asc no, of "''default''"]
    by simp
qed

text \<open>
  C2. Every container reached from the empty one by any sequence of \<open>Set\<close>,
  \<open>AddIfNew\<close>, \<open>operator[]\<close> (with or without an assignment through the
  reference), \<open>Insert\<close> at a position satisfying its precondition, \<open>Remove\<close>,
  \<open>RemoveIndex\<close>, \<open>Clear\<close>, \<open>Reserve\<close> and \<open>Swap\<close> is strictly ascending:
  \<open>cmp (entry[i].key) (entry[j].key)\<close> for all valid \<open>i < j\<close>; consequently no
  two entries have keys comparing equal.
\<close>

theorem reachable_strictly_ascending:
  assumes "strict_weak_order cmp" and "reachable cmp dflt c"
  shows "(\<forall>i j. i < j \<and> j < length c \<longrightarrow> cmp (key (c ! i)) (key (c ! j))) \<and>
         (\<forall>i j. i < length c \<and> j < length c \<and> i \<noteq> j \<longrightarrow>
            \<not> equiv_keys cmp (key (c ! i)) (key (c ! j)))"
proof -
  have asc: "ascending cmp c" by (rule reachable_ascending [OF assms])
  have lt: "cmp (key (c ! i)) (key (c ! j))" if "i < j" "j < length c" for i j
    using asc that by (rule ascending_nth)
  have "\<not> equiv_keys cmp (key (c ! i)) (key (c ! j))"
    if "i < length c" "j < length c" "i \<noteq> j" for i j
  proof (cases "i < j")
    case True
    then show ?thesis using lt [of i j] that by (simp add: equiv_keys_def)
  next
    case False
    then have "j < i" using that by simp
    then show ?thesis using lt [of j i] that by (simp add: equiv_keys_def)
  qed
  with lt show ?thesis by blast
qed

theorem reachable_strictly_ascending_witness:
  "strict_weak_order (idLess :: int \<Rightarrow> int \<Rightarrow> bool) \<and>
   Insert_pre idLess [\<lparr>key = 3 :: int, val = ''b''\<rparr>, \<lparr>key = 5, val = ''a''\<rparr>] 4 1 \<and>
   Insert idLess [\<lparr>key = 3 :: int, val = ''b''\<rparr>, \<lparr>key = 5, val = ''a''\<rparr>] 4 ''d'' 1
     = Inr [\<lparr>key = 3, val = ''b''\<rparr>, \<lparr>key = 4, val = ''d''\<rparr>, \<lparr>key = 5, val = ''a''\<rparr>] \<and>
   reachable idLess ''''
     [\<lparr>key = 3 :: int, val = ''b''\<rparr>, \<lparr>key = 4, val = ''d''\<rparr>, \<lparr>key = 5, val = ''a''\<rparr>] \<and>
   idLess (key ([\<lparr>key = 3 :: int, val = ''b''\<rparr>, \<lparr>key = 4, val = ''d''\<rparr>, \<lparr>key = 5, val = ''a''\<rparr>] ! 0))
          (key ([\<lparr>key = 3 :: int, val = ''b''\<rparr>, \<lparr>key = 4, val = ''d''\<rparr>, \<lparr>key = 5, val = ''a''\<rparr>] ! 2)) \<and>
   \<not> equiv_keys idLess
       (key ([\<lparr>key = 3 :: int, val = ''b''\<rparr>, \<lparr>key = 4, val = ''d''\<rparr>, \<lparr>key = 5, val = ''a''\<rparr>] ! 1))
       (key ([\<lparr>key = 3 :: int, val = ''b''\<rparr>, \<lparr>key = 4, val = ''d''\<rparr>, \<lparr>key = 5, val = ''a''\<rparr>] ! 2))"
proof -
  let ?c1 = "[\<lparr>key = 5 :: int, val = ''a''\<rparr>]"
  let ?c2 = "[\<lparr>key = 3 :: int, val = ''b''\<rparr>, \<lparr>key = 5, val = ''a''\<rparr>]"
  let ?c3 = "[\<lparr>key = 3 :: int, val = ''b''\<rparr>, \<lparr>key = 4, val = ''d''\<rparr>, \<lparr>key = 5, val = ''a''\<rparr>]"
  have s1: "Set idLess [] (5 :: int) ''a'' None = Inr (?c1, True, None)"
    by (simp add: run_defs)
  have s2: "Set idLess ?c1 3 ''b'' None = Inr (?c2, True, None)"
    by (simp add: run_defs)
  have i3: "Insert idLess ?c2 4 ''d'' 1 = Inr ?c3"
    by (simp add: run_defs)
  have pre: "Insert_pre idLess ?c2 4 1"
    by (simp add: Insert_pre_def Num_def idLess_def)
  have r1: "reachable idLess '''' ?c1"
    by (rule by_Set [OF by_empty s1])
  have r2: "reachable idLess '''' ?c2"
    by (rule by_Set [OF r1 s2])
  have r3: "reachable idLess '''' ?c3"
    by (rule by_Insert [OF r2 pre i3])
  have swo: "strict_weak_order (idLess :: int \<Rightarrow> int \<Rightarrow> bool)" by (rule swo_idLess)
  note asc = reachable_strictly_ascending [OF swo r3]
  have lt: "idLess (key (?c3 ! 0)) (key (?c3 ! 2))"
    using asc [THEN conjunct1, rule_format, of 0 2] by simp
  have ne: "\<not> equiv_keys idLess (key (?c3 ! 1)) (key (?c3 ! 2))"
    using asc [THEN conjunct2, rule_format, of 1 2] by simp
  from swo pre i3 r3 lt ne show ?thesis by blast
qed

text \<open>
  C3. On an ascending container \<open>Find K\<close> returns without a fault, and returns an
  entry exactly when some entry has a key comparing equal to \<open>K\<close>; the entry
  returned is an entry of the container with such a key. After any history of
  calls made on an ascending container the run has not faulted, the container
  is ascending, and the value of the entry \<open>Find K\<close> returns is the one the
  specification \<open>spec_last_value\<close> expects: the value last set for a key
  comparing equal to \<open>K\<close>, or the value the entry was inserted with, and no entry
  when there is none or it was removed.
\<close>

theorem Find_lookup_correct:
  assumes "strict_weak_order cmp" and "ascending cmp c"
  shows "(\<exists>r. Find cmp c K = Inr r \<and> (r \<noteq> None \<longleftrightarrow> has_key cmp c K) \<and>
              (\<forall>e. r = Some e \<longrightarrow> e \<in> set c \<and> equiv_keys cmp (key e) K)) \<and>
         (\<exists>c' r. run cmp dflt c calls = Inr c' \<and> ascending cmp c' \<and>
              Find cmp c' K = Inr r \<and>
              map_option val r = spec_last_value cmp dflt (stored cmp c) calls K)"
proof
  show "\<exists>r. Find cmp c K = Inr r \<and> (r \<noteq> None \<longleftrightarrow> has_key cmp c K) \<and>
          (\<forall>e. r = Some e \<longrightarrow> e \<in> set c \<and> equiv_keys cmp (key e) K)"
  proof (cases "has_key cmp c K")
    case True
    from has_key_position [OF assms True]
    have "c ! count_less cmp c K \<in> set c" "equiv_keys cmp (key (c ! count_less cmp c K)) K"
      by simp_all
    then show ?thesis using True by (simp add: Find_ascending [OF assms])
  next
    case False
    then show ?thesis by (simp add: Find_ascending [OF assms])
  qed
next
  from run_correct [OF assms, of dflt calls]
  obtain c' where run: "run cmp dflt c calls = Inr c'" and asc': "ascending cmp c'"
    and st: "stored cmp c' = spec_last_value cmp dflt (stored cmp c) calls"
    by blast
  from Find_stored [OF assms(1) asc', of K]
  obtain r where "Find cmp c' K = Inr r" "map_option val r = stored cmp c' K"
    by blast
  with run asc' st
  show "\<exists>c' r. run cmp dflt c calls = Inr c' \<and> ascending cmp c' \<and>
          Find cmp c' K = Inr r \<and>
          map_option val r = spec_last_value cmp dflt (stored cmp c) calls K"
    by auto
qed

theorem Find_lookup_correct_witness:
  "strict_weak_order (idLess :: int \<Rightarrow> int \<Rightarrow> bool) \<and>
   ascending idLess ([] :: (int, string) container) \<and>
   run idLess '''' []
     [CallAddIfNew (5 :: int) ''a'', CallAddIfNew 5 ''z'', CallSet 3 ''b'', CallSet 3 ''c'',
      CallSet 7 ''d'', CallRemove 7]
     = Inr [\<lparr>key = 3, val = ''c''\<rparr>, \<lparr>key = 5, val = ''a''\<rparr>] \<and>
   Find idLess [\<lparr>key = 3 :: int, val = ''c''\<rparr>, \<lparr>key = 5, val = ''a''\<rparr>] 3
     = Inr (Some \<lparr>key = 3, val = ''c''\<rparr>) \<and>
   spec_last_value idLess '''' (stored idLess [])
     [CallAddIfNew (5 :: int) ''a'', CallAddIfNew 5 ''z'', CallSet 3 ''b'', CallSet 3 ''c'',
      CallSet 7 ''d'', CallRemove 7] 3 = Some ''c'' \<and>
   Find idLess [\<lparr>key = 3 :: int, val = ''c''\<rparr>, \<lparr>key = 5, val = ''a''\<rparr>] 5
     = Inr (Some \<lparr>key = 5, val = ''a''\<rparr>) \<and>
   spec_last_value idLess '''' (stored idLess [])
     [CallAddIfNew (5 :: int) ''a'', CallAddIfNew 5 ''z'', CallSet 3 ''b'', CallSet 3 ''c'',
      CallSet 7 ''d'', CallRemove 7] 5 = Some ''a'' \<and>
   Find idLess [\<lparr>key = 3 :: int, val = ''c''\<rparr>, \<lparr>key = 5, val = ''a''\<rparr>] 7 = Inr None \<and>
   spec_last_value idLess '''' (stored idLess [])
     [CallAddIfNew (5 :: int) ''a'', CallAddIfNew 5 ''z'', CallSet 3 ''b'', CallSet 3 ''c'',
      CallSet 7 ''d'', CallRemove 7] 7 = None"
proof -
  let ?calls = "[CallAddIfNew (5 :: int) ''a'', CallAddIfNew 5 ''z'', CallSet 3 ''b'',
                 CallSet 3 ''c'', CallSet 7 ''d'', CallRemove 7]"
  let ?c = "[\<lparr>key = 3 :: int, val = ''c''\<rparr>, \<lparr>key = 5, val = ''a''\<rparr>]"
  have swo: "strict_weak_order (idLess :: int \<Rightarrow> int \<Rightarrow> bool)" by (rule swo_idLess)
  have asc: "ascending idLess ([] :: (int, string) container)"
    by (simp add: ascending_def)
  have r: "run idLess '''' [] ?calls = Inr ?c"
    by (simp add: run_defs Clear_def Reserve_def)
  have f3: "Find idLess ?c 3 = Inr (Some \<lparr>key = 3, val = ''c''\<rparr>)"
    and f5: "Find idLess ?c 5 = Inr (Some \<lparr>key = 5, val = ''a''\<rparr>)"
    and f7: "Find idLess ?c 7 = Inr None"
    by (simp_all add: run_defs)
  have s3: "spec_last_value idLess '''' (stored idLess []) ?calls 3 = Some ''c''"
    and s5: "spec_last_value idLess '''' (stored idLess []) ?calls 5 = Some ''a''"
    and s7: "spec_last_value idLess '''' (stored idLess []) ?calls 7 = None"
    by (simp_all add: stored_def equiv_keys_def idLess_def)
  show ?thesis
    using swo asc r f3 f5 f7 s3 s5 s7
      Find_lookup_correct [OF swo asc, of 3 "''''" ?calls]
      Find_lookup_correct [OF swo asc, of 5 "''''" ?calls]
      Find_lookup_correct [OF swo asc, of 7 "''''" ?calls]
    by simp
qed

end
